theory Spec2Isabelle
  imports Complex_Main "HOL-Library.Multiset"
begin

section \<open>Numbers\<close>

text \<open>
  The selection engine of \<^verbatim>\<open>src/utils/submodular-optimization.ts\<close> computes with JavaScript
  numbers, that is with binary64 floating-point values.  A finite number is modelled by the
  real it denotes, and every arithmetic operation of the source (\<^verbatim>\<open>+\<close>, \<^verbatim>\<open>-\<close>, \<^verbatim>\<open>*\<close>, \<^verbatim>\<open>/\<close>,
  \<^verbatim>\<open>Math.sqrt\<close>) by the exact operation on reals followed by a rounding function \<open>rnd\<close>,
  which all functions of the model take as their first argument.  Comparisons, the unary
  minus and the conversion of an array length are exact and are not rounded.

  Two roundings matter: \<open>binary64\<close>, the rounding of the language (to the nearest
  value with a 53-bit significand, ties to the even significand, with gradual underflow),
  and the identity, which is exact arithmetic.  Infinities and NaN are not represented: the
  model describes the runs of the source in which no operation overflows.  Array indices
  and iteration counters are natural numbers; the parameter \<open>k\<close> keeps the type
  \<^verbatim>\<open>number\<close> of the source.
\<close>

subsection \<open>Rounding to binary64\<close>

text \<open>\<open>p2 e\<close> is the power of two with the integer exponent \<open>e\<close>.\<close>

definition p2 :: "int \<Rightarrow> real" where
  "p2 e = (if 0 \<le> e then 2 ^ nat e else 1 / 2 ^ nat (- e))"

text \<open>Rounding of a real to the nearest integer, a tie going to the even neighbour.\<close>

definition round_even :: "real \<Rightarrow> int" where
  "round_even y =
     (let f = \<lfloor>y\<rfloor>
      in if y - of_int f < 1 / 2 then f
         else if 1 / 2 < y - of_int f then f + 1
         else if even f then f else f + 1)"

text \<open>
  The exponent of the binade of \<open>x\<close>, held at \<open>-1022\<close> in the subnormal range, and the
  distance of two neighbouring binary64 values in that binade.
\<close>

definition binade :: "real \<Rightarrow> int" where
  "binade x = max \<lfloor>log 2 \<bar>x\<bar>\<rfloor> (- 1022)"

definition ulp64 :: "real \<Rightarrow> real" where
  "ulp64 x = p2 (binade x - 52)"

definition binary64 :: "real \<Rightarrow> real" where
  "binary64 x = (if x = 0 then 0 else of_int (round_even (x / ulp64 x)) * ulp64 x)"

text \<open>The finite binary64 values: a significand below \<open>2\<^sup>5\<^sup>3\<close> times a power of two in range.\<close>

definition representable64 :: "real \<Rightarrow> bool" where
  "representable64 x \<longleftrightarrow>
     (\<exists>m e :: int. \<bar>m\<bar> < 2 ^ 53 \<and> - 1074 \<le> e \<and> e \<le> 971 \<and> x = of_int m * p2 e)"

text \<open>
  What the general results need of a rounding: it is monotone and leaves the binary64
  values unchanged.  Both \<open>binary64\<close> and the identity are such roundings.
\<close>

definition rounding :: "(real \<Rightarrow> real) \<Rightarrow> bool" where
  "rounding rnd \<longleftrightarrow>
     (\<forall>x y. x \<le> y \<longrightarrow> rnd x \<le> rnd y) \<and> (\<forall>x. representable64 x \<longrightarrow> rnd x = x)"

section \<open>The source functions\<close>

subsection \<open>cosineSimilarity\<close>

text \<open>
  The accumulation loop of \<^verbatim>\<open>cosineSimilarity\<close>.  The source walks both arrays with one
  index after having checked that the lengths agree; the three accumulators are
  \<open>dotProduct\<close>, \<open>normA\<close> and \<open>normB\<close>, and each step rounds the product and the sum.
\<close>

fun cosineLoop ::
    "(real \<Rightarrow> real) \<Rightarrow> real list \<Rightarrow> real list \<Rightarrow> real \<times> real \<times> real \<Rightarrow> real \<times> real \<times> real" where
  "cosineLoop rnd (x # xs) (y # ys) (dotProduct, normA, normB) =
     cosineLoop rnd xs ys
       (rnd (dotProduct + rnd (x * y)), rnd (normA + rnd (x * x)), rnd (normB + rnd (y * y)))"
| "cosineLoop rnd _ _ acc = acc"

definition cosineSimilarity :: "(real \<Rightarrow> real) \<Rightarrow> real list \<Rightarrow> real list \<Rightarrow> real" where
  "cosineSimilarity rnd a b =
     (if length a \<noteq> length b then 0
      else (case cosineLoop rnd a b (0, 0, 0) of
              (dotProduct, normA, normB) \<Rightarrow>
                if normA = 0 \<or> normB = 0 then 0
                else rnd (dotProduct / rnd (rnd (sqrt normA) * rnd (sqrt normB)))))"

subsection \<open>computeMarginalGainDiversity\<close>

text \<open>
  The facility-location marginal gain of item \<open>newIdx\<close> against the coverage vector: the
  loop runs over \<open>i = 0, \<dots>, n - 1\<close> with \<open>n\<close> the number of rows of the matrix, and keeps
  a rounded running sum of the rounded differences.  The selection functions only call it
  with an \<open>n \<times> n\<close> matrix, a coverage vector of length \<open>n\<close> and \<open>newIdx < n\<close>, so
  every read is in range.
\<close>

definition computeMarginalGainDiversity ::
    "(real \<Rightarrow> real) \<Rightarrow> nat \<Rightarrow> real list \<Rightarrow> real list list \<Rightarrow> real" where
  "computeMarginalGainDiversity rnd newIdx currentCoverage similarityMatrix =
     (let n = length similarityMatrix;
          row = similarityMatrix ! newIdx
      in fold (\<lambda>i marginalGain.
                 let newCoverage =
                       (if row ! i > currentCoverage ! i then row ! i else currentCoverage ! i)
                 in rnd (marginalGain + rnd (newCoverage - currentCoverage ! i)))
              [0..<n] 0)"

subsection \<open>The similarity matrix, the coverage update and the queue\<close>

text \<open>
  Both selection functions build the same matrix: entry \<open>(i, j)\<close> is the cosine similarity of
  embeddings \<open>i\<close> and \<open>j\<close>, replaced by \<open>0\<close> unless it is positive.
\<close>

definition similarityMatrix :: "(real \<Rightarrow> real) \<Rightarrow> real list list \<Rightarrow> real list list" where
  "similarityMatrix rnd embeddings =
     (let n = length embeddings
      in map (\<lambda>i. map (\<lambda>j. let sim = cosineSimilarity rnd (embeddings ! i) (embeddings ! j)
                             in if sim > 0 then sim else 0) [0..<n]) [0..<n])"

text \<open>
  The coverage update performed on acceptance:
  \<^verbatim>\<open>for (i = 0; i < n; i++) if (row[i] > currentCoverage[i]) currentCoverage[i] = row[i]\<close>.
\<close>

definition updateCoverage :: "nat \<Rightarrow> real list \<Rightarrow> real list \<Rightarrow> real list" where
  "updateCoverage n row currentCoverage =
     fold (\<lambda>i cov. if row ! i > cov ! i then cov[i := row ! i] else cov) [0..<n] currentCoverage"

text \<open>
  A queue entry is the triple \<^verbatim>\<open>[-gain, lastUpdated, index]\<close>.  The queue is an array kept
  sorted by \<^verbatim>\<open>pq.sort((a, b) => a[0] - b[0])\<close>; the sort of the language is stable, and so is
  \<^const>\<open>sort_key\<close>.
\<close>

type_synonym entry = "real \<times> nat \<times> nat"

definition initialQueue ::
    "(real \<Rightarrow> real) \<Rightarrow> nat \<Rightarrow> real list \<Rightarrow> real list list \<Rightarrow> entry list" where
  "initialQueue rnd n currentCoverage sim =
     sort_key fst
       (map (\<lambda>i. (- computeMarginalGainDiversity rnd i currentCoverage sim, 0, i)) [0..<n])"

subsection \<open>lazyGreedySelection\<close>

record sel_state =
  selected :: "nat list"
  remaining :: "nat set"
  currentCoverage :: "real list"
  pq :: "entry list"

text \<open>
  The inner \<^verbatim>\<open>while (pq.length > 0)\<close> loop of one iteration: pop the head; drop it when its
  index is no longer remaining; accept it (and leave the loop) when its epoch is the current
  iteration; otherwise recompute its gain, push it back with the current epoch and sort.
\<close>

function whileLoop ::
    "(real \<Rightarrow> real) \<Rightarrow> real list list \<Rightarrow> nat \<Rightarrow> nat \<Rightarrow> sel_state \<Rightarrow> sel_state" where
  "whileLoop rnd sim n iteration s =
     (case pq s of
        [] \<Rightarrow> s
      | (negGain, lastUpdated, bestIdx) # rest \<Rightarrow>
          if bestIdx \<notin> remaining s then whileLoop rnd sim n iteration (s\<lparr>pq := rest\<rparr>)
          else if lastUpdated = iteration then
            s\<lparr>selected := selected s @ [bestIdx],
              remaining := remaining s - {bestIdx},
              currentCoverage := updateCoverage n (sim ! bestIdx) (currentCoverage s),
              pq := rest\<rparr>
          else
            let currentGain = computeMarginalGainDiversity rnd bestIdx (currentCoverage s) sim
            in whileLoop rnd sim n iteration
                 (s\<lparr>pq := sort_key fst (rest @ [(- currentGain, iteration, bestIdx)])\<rparr>))"
  by pat_completeness auto

text \<open>
  The inner loop cannot run forever: an entry that is dropped shortens the queue, and an entry
  that is pushed back carries the current epoch, so the number of entries with another epoch
  decreases.
\<close>

definition staleCount :: "nat \<Rightarrow> entry list \<Rightarrow> nat" where
  "staleCount iteration q = length q + length (filter (\<lambda>e. fst (snd e) \<noteq> iteration) q)"

lemma staleCount_sort_key: "staleCount it (sort_key fst q) = staleCount it q"
  by (simp add: staleCount_def filter_sort)

lemma staleCount_drop: "q = x # rest \<Longrightarrow> staleCount it rest < staleCount it q"
  by (simp add: staleCount_def)

lemma staleCount_repush:
  "q = (g, e, b) # rest \<Longrightarrow> e \<noteq> it \<Longrightarrow>
   staleCount it (sort_key fst (rest @ [(g', it, b)])) < staleCount it q"
  by (simp add: staleCount_sort_key) (simp add: staleCount_def)

termination whileLoop
  by (relation "measure (\<lambda>(rnd, sim, n, iteration, s). staleCount iteration (pq s))")
    (auto intro: staleCount_drop staleCount_repush)

text \<open>
  The outer loop \<^verbatim>\<open>for (iteration = 0; iteration < k; iteration++)\<close>; \<open>k\<close> is a number, the
  counter a natural number.
\<close>

function forLoop ::
    "(real \<Rightarrow> real) \<Rightarrow> real list list \<Rightarrow> nat \<Rightarrow> real \<Rightarrow> nat \<Rightarrow> sel_state \<Rightarrow> sel_state" where
  "forLoop rnd sim n k iteration s =
     (if real iteration < k
      then forLoop rnd sim n k (Suc iteration) (whileLoop rnd sim n iteration s)
      else s)"
  by pat_completeness auto
termination
  by (relation "measure (\<lambda>(rnd, sim, n, k, iteration, s). nat \<lceil>k\<rceil> - iteration)")
    (auto, linarith)

definition initialState :: "(real \<Rightarrow> real) \<Rightarrow> real list list \<Rightarrow> nat \<Rightarrow> sel_state" where
  "initialState rnd sim n =
     \<lparr>selected = [], remaining = {0..<n}, currentCoverage = replicate n 0,
      pq = initialQueue rnd n (replicate n 0) sim\<rparr>"

definition lazyGreedySelection :: "(real \<Rightarrow> real) \<Rightarrow> real list list \<Rightarrow> real \<Rightarrow> nat list" where
  "lazyGreedySelection rnd embeddings k =
     (let n = length embeddings
      in if k \<ge> real n then [0..<n]
         else
           let sim = similarityMatrix rnd embeddings;
               s = forLoop rnd sim n k 0 (initialState rnd sim n)
           in selected s)"

subsection \<open>lazyGreedySelectionWithSaturation\<close>

text \<open>
  The second function repeats the loop of the first and adds the objective trajectory
  \<^verbatim>\<open>values\<close> and the early-stop marker \<^verbatim>\<open>earlyStopK\<close> (\<^verbatim>\<open>null\<close> is \<open>None\<close>).  The
  objective is the rounded running sum of the coverage, divided by \<open>n\<close>; the delta is the
  rounded difference of the last two values.
\<close>

record sat_state = sel_state +
  valuesAcc :: "real list"
  earlyStopK :: "nat option"

function satWhileLoop ::
    "(real \<Rightarrow> real) \<Rightarrow> real list list \<Rightarrow> nat \<Rightarrow> real \<Rightarrow> nat \<Rightarrow> sat_state \<Rightarrow> sat_state" where
  "satWhileLoop rnd sim n threshold iteration s =
     (case pq s of
        [] \<Rightarrow> s
      | (negGain, lastUpdated, bestIdx) # rest \<Rightarrow>
          if bestIdx \<notin> remaining s
          then satWhileLoop rnd sim n threshold iteration (s\<lparr>pq := rest\<rparr>)
          else if lastUpdated = iteration then
            let cov = updateCoverage n (sim ! bestIdx) (currentCoverage s);
                functionValue = rnd (fold (\<lambda>val sum. rnd (sum + val)) cov 0 / real n);
                vs = valuesAcc s @ [functionValue];
                stop = (if length vs \<ge> 2
                           \<and> rnd (vs ! (length vs - 1) - vs ! (length vs - 2)) < threshold
                        then Some (length vs) else earlyStopK s)
            in s\<lparr>selected := selected s @ [bestIdx],
                 remaining := remaining s - {bestIdx},
                 currentCoverage := cov,
                 pq := rest,
                 valuesAcc := vs,
                 earlyStopK := stop\<rparr>
          else
            let currentGain = computeMarginalGainDiversity rnd bestIdx (currentCoverage s) sim
            in satWhileLoop rnd sim n threshold iteration
                 (s\<lparr>pq := sort_key fst (rest @ [(- currentGain, iteration, bestIdx)])\<rparr>))"
  by pat_completeness auto

termination satWhileLoop
  by (relation "measure (\<lambda>(rnd, sim, n, threshold, iteration, s). staleCount iteration (pq s))")
    (auto intro: staleCount_drop staleCount_repush)

text \<open>
  The outer loop runs \<open>iteration\<close> from \<open>0\<close> to \<open>n - 1\<close> and leaves as soon as the inner loop
  has set \<^verbatim>\<open>earlyStopK\<close>.
\<close>

function satForLoop ::
    "(real \<Rightarrow> real) \<Rightarrow> real list list \<Rightarrow> nat \<Rightarrow> real \<Rightarrow> nat \<Rightarrow> sat_state \<Rightarrow> sat_state" where
  "satForLoop rnd sim n threshold iteration s =
     (if iteration < n then
        let s' = satWhileLoop rnd sim n threshold iteration s
        in if earlyStopK s' \<noteq> None then s'
           else satForLoop rnd sim n threshold (Suc iteration) s'
      else s)"
  by pat_completeness auto
termination
  by (relation "measure (\<lambda>(rnd, sim, n, threshold, iteration, s). n - iteration)") auto

record saturation_result =
  res_selected :: "nat list"
  res_optimalK :: nat
  res_values :: "real list"

definition lazyGreedySelectionWithSaturation ::
    "(real \<Rightarrow> real) \<Rightarrow> real list list \<Rightarrow> real \<Rightarrow> saturation_result" where
  "lazyGreedySelectionWithSaturation rnd embeddings threshold =
     (let n = length embeddings;
          sim = similarityMatrix rnd embeddings;
          cov = replicate n 0;
          s = satForLoop rnd sim n threshold 0
                \<lparr>selected = [], remaining = {0..<n}, currentCoverage = cov,
                 pq = initialQueue rnd n cov sim, valuesAcc = [], earlyStopK = None\<rparr>;
          optimalK = (case earlyStopK s of Some t \<Rightarrow> t | None \<Rightarrow> length (valuesAcc s));
          finalSelected = take optimalK (selected s)
      in \<lparr>res_selected = finalSelected, res_optimalK = optimalK, res_values = valuesAcc s\<rparr>)"

text \<open>The default value \<^verbatim>\<open>1e-2\<close> of the threshold is the number nearest to one hundredth.\<close>

definition default_threshold :: "(real \<Rightarrow> real) \<Rightarrow> real" where
  "default_threshold rnd = rnd (1 / 100)"

subsection \<open>The caller: the deduplicate\_strings tool\<close>

text \<open>
  The tool handler validates the request before it asks the embedding service and before
  it selects.  Its three rejections are modelled as error values; the embeddings returned
  by the service are a parameter (the failure paths of the HTTP request are not part of
  this model), and the result is the list of selected indices from which the handler builds
  its response.  The handler of \<^verbatim>\<open>deduplicate_images\<close> performs the same checks.
\<close>

datatype handler_error =
    MissingBearerToken
  | NoStringsProvided
  | InvalidK real nat

definition deduplicate_strings ::
    "(real \<Rightarrow> real) \<Rightarrow> bool \<Rightarrow> string list \<Rightarrow> real option \<Rightarrow> real list list
      \<Rightarrow> handler_error + nat list" where
  "deduplicate_strings rnd hasToken strings k embeddings =
     (if \<not> hasToken then Inl MissingBearerToken
      else if length strings = 0 then Inl NoStringsProvided
      else case k of
             Some kv \<Rightarrow>
               if kv \<le> 0 \<or> kv > real (length strings) then Inl (InvalidK kv (length strings))
               else Inr (lazyGreedySelection rnd embeddings kv)
           | None \<Rightarrow>
               Inr (res_selected
                     (lazyGreedySelectionWithSaturation rnd embeddings (default_threshold rnd))))"

section \<open>Counting the steps of lazyGreedySelection\<close>

text \<open>
  To state how long the loops run, the two loops of \<open>lazyGreedySelection\<close> are repeated
  with counters: \<open>whileLoopPops\<close> follows the case analysis of \<open>whileLoop\<close> and counts
  the entries popped from the queue; \<open>forLoopIterations\<close> and \<open>forLoopPops\<close> follow
  \<open>forLoop\<close> and count the iterations of the outer loop and all pops.
\<close>

function whileLoopPops ::
    "(real \<Rightarrow> real) \<Rightarrow> real list list \<Rightarrow> nat \<Rightarrow> nat \<Rightarrow> sel_state \<Rightarrow> nat" where
  "whileLoopPops rnd sim n iteration s =
     (case pq s of
        [] \<Rightarrow> 0
      | (negGain, lastUpdated, bestIdx) # rest \<Rightarrow>
          if bestIdx \<notin> remaining s
          then Suc (whileLoopPops rnd sim n iteration (s\<lparr>pq := rest\<rparr>))
          else if lastUpdated = iteration then 1
          else
            let currentGain = computeMarginalGainDiversity rnd bestIdx (currentCoverage s) sim
            in Suc (whileLoopPops rnd sim n iteration
                 (s\<lparr>pq := sort_key fst (rest @ [(- currentGain, iteration, bestIdx)])\<rparr>)))"
  by pat_completeness auto

termination whileLoopPops
  by (relation "measure (\<lambda>(rnd, sim, n, iteration, s). staleCount iteration (pq s))")
    (auto intro: staleCount_drop staleCount_repush)

function forLoopIterations ::
    "(real \<Rightarrow> real) \<Rightarrow> real list list \<Rightarrow> nat \<Rightarrow> real \<Rightarrow> nat \<Rightarrow> sel_state \<Rightarrow> nat" where
  "forLoopIterations rnd sim n k iteration s =
     (if real iteration < k
      then Suc (forLoopIterations rnd sim n k (Suc iteration) (whileLoop rnd sim n iteration s))
      else 0)"
  by pat_completeness auto
termination
  by (relation "measure (\<lambda>(rnd, sim, n, k, iteration, s). nat \<lceil>k\<rceil> - iteration)")
    (auto, linarith)

function forLoopPops ::
    "(real \<Rightarrow> real) \<Rightarrow> real list list \<Rightarrow> nat \<Rightarrow> real \<Rightarrow> nat \<Rightarrow> sel_state \<Rightarrow> nat" where
  "forLoopPops rnd sim n k iteration s =
     (if real iteration < k
      then whileLoopPops rnd sim n iteration s
           + forLoopPops rnd sim n k (Suc iteration) (whileLoop rnd sim n iteration s)
      else 0)"
  by pat_completeness auto
termination
  by (relation "measure (\<lambda>(rnd, sim, n, k, iteration, s). nat \<lceil>k\<rceil> - iteration)")
    (auto, linarith)

text \<open>
  The iterations of the outer loop and the pops of the inner loop in a call of
  \<open>lazyGreedySelection\<close>; the early return runs no loop.
\<close>

definition selectionIterations :: "(real \<Rightarrow> real) \<Rightarrow> real list list \<Rightarrow> real \<Rightarrow> nat" where
  "selectionIterations rnd embeddings k =
     (let n = length embeddings
      in if k \<ge> real n then 0
         else let sim = similarityMatrix rnd embeddings
              in forLoopIterations rnd sim n k 0 (initialState rnd sim n))"

definition selectionPops :: "(real \<Rightarrow> real) \<Rightarrow> real list list \<Rightarrow> real \<Rightarrow> nat" where
  "selectionPops rnd embeddings k =
     (let n = length embeddings
      in if k \<ge> real n then 0
         else let sim = similarityMatrix rnd embeddings
              in forLoopPops rnd sim n k 0 (initialState rnd sim n))"

section \<open>Specification vocabulary\<close>

text \<open>
  The claims speak about the coverage vector after a sequence of acceptances, about the
  objective (the mean coverage) and its trajectory, and about greedy choices.  These notions
  are defined here from the operations of the source, with the rounding of the source.

  \<open>coverage_after sim n sel\<close> replays the coverage updates of the source for the accepted
  indices \<open>sel\<close>, starting from the all-zero vector; \<open>coverageSum\<close> is the rounded running
  sum of \<^verbatim>\<open>currentCoverage.reduce\<close>; \<open>objective\<close> is the value the saturation variant
  pushes after an acceptance; \<open>trajectory\<close> lists the objective after each prefix of a
  selection; \<open>delta rnd vs t\<close> is the rounded difference of the \<open>t\<close>-th and the
  \<open>(t-1)\<close>-th value, counted from 1 as the source counts selections.
\<close>

definition coverage_after :: "real list list \<Rightarrow> nat \<Rightarrow> nat list \<Rightarrow> real list" where
  "coverage_after sim n sel = fold (\<lambda>b cov. updateCoverage n (sim ! b) cov) sel (replicate n 0)"

definition coverageSum :: "(real \<Rightarrow> real) \<Rightarrow> real list \<Rightarrow> real" where
  "coverageSum rnd cov = fold (\<lambda>val sum. rnd (sum + val)) cov 0"

definition objective :: "(real \<Rightarrow> real) \<Rightarrow> real list list \<Rightarrow> nat \<Rightarrow> nat list \<Rightarrow> real" where
  "objective rnd sim n sel = rnd (coverageSum rnd (coverage_after sim n sel) / real n)"

definition trajectory :: "(real \<Rightarrow> real) \<Rightarrow> real list list \<Rightarrow> nat \<Rightarrow> nat list \<Rightarrow> real list" where
  "trajectory rnd sim n sel = map (\<lambda>t. objective rnd sim n (take (Suc t) sel)) [0..<length sel]"

definition delta :: "(real \<Rightarrow> real) \<Rightarrow> real list \<Rightarrow> nat \<Rightarrow> real" where
  "delta rnd vs t = rnd (vs ! (t - 1) - vs ! (t - 2))"

text \<open>
  A selection is greedy when every item, at the moment it was accepted, had a marginal gain
  against the coverage of the items before it that no other item still available exceeded:
  this is what a loop recomputing every gain in every iteration would pick (up to ties).
  The gains are the ones \<open>computeMarginalGainDiversity\<close> computes.
\<close>

definition greedy_seq :: "(real \<Rightarrow> real) \<Rightarrow> real list list \<Rightarrow> nat \<Rightarrow> nat list \<Rightarrow> bool" where
  "greedy_seq rnd sim n sel \<longleftrightarrow>
     (\<forall>t\<in>{0..<length sel}. \<forall>j\<in>{0..<n} - set (take t sel).
        computeMarginalGainDiversity rnd j (coverage_after sim n (take t sel)) sim
          \<le> computeMarginalGainDiversity rnd (sel ! t) (coverage_after sim n (take t sel)) sim)"

text \<open>
  \<open>normSquared rnd v\<close> is the squared norm that the loop of \<open>cosineSimilarity\<close>
  accumulates for the vector \<open>v\<close>.
\<close>

definition normSquared :: "(real \<Rightarrow> real) \<Rightarrow> real list \<Rightarrow> real" where
  "normSquared rnd v = fst (snd (cosineLoop rnd v v (0, 0, 0)))"

definition unit_range :: "real list \<Rightarrow> bool" where
  "unit_range xs \<longleftrightarrow> (\<forall>x\<in>set xs. 0 \<le> x \<and> x \<le> 1)"

definition nonneg_list :: "real list \<Rightarrow> bool" where
  "nonneg_list xs \<longleftrightarrow> (\<forall>x\<in>set xs. 0 \<le> x)"

subsection \<open>Loop invariants\<close>

text \<open>
  The queue invariant of iteration \<open>it\<close>: the queue holds exactly the remaining indices,
  once each, sorted by key; every stored gain is an upper bound of the gain against the
  current coverage, and is exact when the entry carries the current epoch.
\<close>

definition queue_inv ::
    "(real \<Rightarrow> real) \<Rightarrow> real list list \<Rightarrow> nat \<Rightarrow> nat \<Rightarrow> 'a sel_state_scheme \<Rightarrow> bool" where
  "queue_inv rnd sim n it s \<longleftrightarrow>
     length sim = n \<and> length (currentCoverage s) = n \<and>
     distinct (map (snd \<circ> snd) (pq s)) \<and>
     set (map (snd \<circ> snd) (pq s)) = remaining s \<and>
     sorted (map fst (pq s)) \<and>
     (\<forall>(g, e, i)\<in>set (pq s).
        e \<le> it \<and> computeMarginalGainDiversity rnd i (currentCoverage s) sim \<le> - g \<and>
        (e = it \<longrightarrow> - g = computeMarginalGainDiversity rnd i (currentCoverage s) sim))"

text \<open>
  \<open>accepted\<close> describes the state after an iteration that accepted the index \<open>b\<close>.
\<close>

definition accepted ::
    "(real \<Rightarrow> real) \<Rightarrow> real list list \<Rightarrow> nat \<Rightarrow> nat \<Rightarrow> sel_state \<Rightarrow> sel_state \<Rightarrow> bool" where
  "accepted rnd sim n it s s' \<longleftrightarrow>
     (\<exists>b rest'. b \<in> remaining s \<and>
        s' = s\<lparr>selected := selected s @ [b], remaining := remaining s - {b},
               currentCoverage := updateCoverage n (sim ! b) (currentCoverage s), pq := rest'\<rparr> \<and>
        Suc (length rest') = length (pq s) \<and>
        (\<forall>j\<in>remaining s. computeMarginalGainDiversity rnd j (currentCoverage s) sim
            \<le> computeMarginalGainDiversity rnd b (currentCoverage s) sim))"

definition outer_inv ::
    "(real \<Rightarrow> real) \<Rightarrow> real list list \<Rightarrow> nat \<Rightarrow> nat \<Rightarrow> 'a sel_state_scheme \<Rightarrow> bool" where
  "outer_inv rnd sim n it s \<longleftrightarrow>
     queue_inv rnd sim n it s \<and> length (selected s) = it \<and> it + length (pq s) = n \<and>
     currentCoverage s = coverage_after sim n (selected s) \<and>
     remaining s = {0..<n} - set (selected s) \<and>
     distinct (selected s) \<and> set (selected s) \<subseteq> {0..<n} \<and>
     greedy_seq rnd sim n (selected s)"

definition sat_inv ::
    "(real \<Rightarrow> real) \<Rightarrow> real list list \<Rightarrow> nat \<Rightarrow> real \<Rightarrow> nat \<Rightarrow> sat_state \<Rightarrow> bool" where
  "sat_inv rnd sim n thr it s \<longleftrightarrow>
     outer_inv rnd sim n it s \<and> earlyStopK s = None \<and>
     valuesAcc s = trajectory rnd sim n (selected s) \<and>
     (\<forall>t\<in>{2..it}. thr \<le> delta rnd (valuesAcc s) t)"

definition sat_post ::
    "(real \<Rightarrow> real) \<Rightarrow> real list list \<Rightarrow> nat \<Rightarrow> real \<Rightarrow> sat_state \<Rightarrow> bool" where
  "sat_post rnd sim n thr s \<longleftrightarrow>
     (\<exists>K. outer_inv rnd sim n K s \<and> valuesAcc s = trajectory rnd sim n (selected s) \<and>
        (\<forall>t\<in>{2..<K}. thr \<le> delta rnd (valuesAcc s) t) \<and>
        (earlyStopK s = Some K \<and> 2 \<le> K \<and> delta rnd (valuesAcc s) K < thr
         \<or> earlyStopK s = None \<and> K = n \<and> (2 \<le> K \<longrightarrow> thr \<le> delta rnd (valuesAcc s) K)))"

definition sat_result_ok ::
    "(real \<Rightarrow> real) \<Rightarrow> real list list \<Rightarrow> real \<Rightarrow> saturation_result \<Rightarrow> bool" where
  "sat_result_ok rnd e thr r \<longleftrightarrow>
     (let sim = similarityMatrix rnd e; n = length e; K = res_optimalK r; vs = res_values r
      in length (res_selected r) = K \<and> K \<le> n \<and>
         vs = trajectory rnd sim n (res_selected r) \<and>
         distinct (res_selected r) \<and> set (res_selected r) \<subseteq> {0..<n} \<and>
         greedy_seq rnd sim n (res_selected r) \<and>
         (\<forall>t\<in>{2..<K}. thr \<le> delta rnd vs t) \<and>
         (2 \<le> K \<and> delta rnd vs K < thr \<or> K = n \<and> (2 \<le> n \<longrightarrow> thr \<le> delta rnd vs n)))"

declare whileLoop.simps [simp del] satWhileLoop.simps [simp del]
  forLoop.simps [simp del] satForLoop.simps [simp del]
  whileLoopPops.simps [simp del] forLoopIterations.simps [simp del] forLoopPops.simps [simp del]

section \<open>Properties of the rounding\<close>

text \<open>
  \<open>binary64\<close> is monotone, odd, leaves the binary64 values unchanged and, in the normal
  range, has a relative error of at most \<open>2\<^sup>-\<^sup>5\<^sup>3\<close>.  It can be evaluated on a concrete
  real once the binade and the nearest significand are known.
\<close>

lemma p2_powr: "p2 e = 2 powr of_int e"
  by (simp add: p2_def powr_int)

lemma p2_pos [simp]: "0 < p2 e"
  by (simp add: p2_powr)

lemma p2_add: "p2 (a + b) = p2 a * p2 b"
  by (simp add: p2_powr powr_add)

lemma p2_diff: "p2 (a - b) = p2 a / p2 b"
  by (simp add: p2_powr powr_diff)

lemma p2_mono: "a \<le> b \<Longrightarrow> p2 a \<le> p2 b"
  by (simp add: p2_powr)

lemma p2_nat: "0 \<le> e \<Longrightarrow> p2 e = of_int (2 ^ nat e)"
  by (simp add: p2_def)

lemma round_even_near: "\<bar>of_int (round_even y) - y\<bar> \<le> 1 / 2"
  unfolding round_even_def Let_def by (auto; linarith)

lemma round_even_unique:
  assumes "\<bar>y - of_int m\<bar> < 1 / 2"
  shows "round_even y = m"
proof -
  from round_even_near [of y] assms
  have "\<bar>(of_int (round_even y) :: real) - of_int m\<bar> < 1" by linarith
  then have "\<bar>of_int (round_even y - m) :: real\<bar> < 1" by simp
  then have "\<bar>round_even y - m\<bar> < 1" by linarith
  then show ?thesis by simp
qed

lemma round_even_of_int [simp]: "round_even (of_int m) = m"
  by (rule round_even_unique) simp

lemma round_even_mono:
  assumes "y \<le> y'"
  shows "round_even y \<le> round_even y'"
proof (rule ccontr)
  assume "\<not> round_even y \<le> round_even y'"
  then have "round_even y' + 1 \<le> round_even y" by simp
  then have 1: "(of_int (round_even y') :: real) + 1 \<le> of_int (round_even y)"
    by (metis of_int_1 of_int_add of_int_le_iff)
  from round_even_near [of y] round_even_near [of y'] assms 1
  have "y = y'" by linarith
  with \<open>\<not> round_even y \<le> round_even y'\<close> show False by simp
qed

lemma floor_log2_bounds:
  assumes "0 < x"
  shows "p2 \<lfloor>log 2 x\<rfloor> \<le> x" and "x < p2 (\<lfloor>log 2 x\<rfloor> + 1)"
proof -
  have "of_int \<lfloor>log 2 x\<rfloor> \<le> log 2 x" by simp
  then have "2 powr of_int \<lfloor>log 2 x\<rfloor> \<le> 2 powr log 2 x" by simp
  with assms show "p2 \<lfloor>log 2 x\<rfloor> \<le> x" by (simp add: p2_powr)
  have "log 2 x < of_int (\<lfloor>log 2 x\<rfloor> + 1)" by simp
  then have "2 powr log 2 x < 2 powr of_int (\<lfloor>log 2 x\<rfloor> + 1)"
    by (simp only: powr_less_cancel_iff) 
  with assms show "x < p2 (\<lfloor>log 2 x\<rfloor> + 1)" by (simp add: p2_powr)
qed

lemma floor_log2_eq:
  assumes "p2 E \<le> x" "x < p2 (E + 1)"
  shows "\<lfloor>log 2 x\<rfloor> = E"
proof -
  have pos: "0 < x" using assms(1) p2_pos [of E] by linarith
  have "2 powr of_int E \<le> 2 powr log 2 x"
    using assms(1) pos by (simp add: p2_powr)
  then have 1: "of_int E \<le> log 2 x" by simp
  have "2 powr log 2 x < 2 powr of_int (E + 1)"
    using assms(2) pos by (simp add: p2_powr)
  then have 2: "log 2 x < of_int (E + 1)" by (simp only: powr_less_cancel_iff) 
  from 1 2 show ?thesis by linarith
qed

lemma ulp64_pos [simp]: "0 < ulp64 x"
  by (simp add: ulp64_def)

lemma abs_lt_binade:
  assumes "x \<noteq> 0"
  shows "\<bar>x\<bar> < p2 (binade x + 1)"
proof -
  have "\<bar>x\<bar> < p2 (\<lfloor>log 2 \<bar>x\<bar>\<rfloor> + 1)"
    using assms by (intro floor_log2_bounds) simp
  also have "\<dots> \<le> p2 (binade x + 1)"
    by (rule p2_mono) (simp add: binade_def)
  finally show ?thesis .
qed

lemma binade_le_abs:
  assumes "x \<noteq> 0" "- 1022 \<le> \<lfloor>log 2 \<bar>x\<bar>\<rfloor>"
  shows "p2 (binade x) \<le> \<bar>x\<bar>"
proof -
  from assms(2) have "binade x = \<lfloor>log 2 \<bar>x\<bar>\<rfloor>" by (simp add: binade_def)
  then show ?thesis using assms(1) floor_log2_bounds(1) [of "\<bar>x\<bar>"] by simp
qed

lemma binade_mono:
  assumes "0 < x" "x \<le> y"
  shows "binade x \<le> binade y"
proof -
  from assms have "log 2 x \<le> log 2 y" by simp
  then have "\<lfloor>log 2 x\<rfloor> \<le> \<lfloor>log 2 y\<rfloor>" by (rule floor_mono)
  then show ?thesis using assms by (simp add: binade_def)
qed

lemma binade_abs [simp]: "binade \<bar>x\<bar> = binade x" "binade (- x) = binade x"
  by (simp_all add: binade_def)

lemma p2_53_ulp: "p2 (binade x + 1) = 2 ^ 53 * ulp64 x"
proof -
  have "binade x + 1 = 53 + (binade x - 52)" by simp
  then have "p2 (binade x + 1) = p2 (53 + (binade x - 52))" by (rule arg_cong)
  also have "\<dots> = p2 53 * ulp64 x" unfolding ulp64_def by (rule p2_add)
  finally show ?thesis by (simp add: p2_def)
qed

lemma p2_52_ulp: "p2 (binade x) = 2 ^ 52 * ulp64 x"
proof -
  have "binade x = 52 + (binade x - 52)" by simp
  then have "p2 (binade x) = p2 (52 + (binade x - 52))" by (rule arg_cong)
  also have "\<dots> = p2 52 * ulp64 x" unfolding ulp64_def by (rule p2_add)
  finally show ?thesis by (simp add: p2_def)
qed

lemma scaled_lt:
  assumes "x \<noteq> 0"
  shows "\<bar>x\<bar> / ulp64 x < 2 ^ 53"
  using abs_lt_binade [OF assms] by (simp add: p2_53_ulp divide_less_eq)

lemma scaled_ge:
  assumes "x \<noteq> 0" "- 1022 \<le> \<lfloor>log 2 \<bar>x\<bar>\<rfloor>"
  shows "2 ^ 52 \<le> \<bar>x\<bar> / ulp64 x"
  using binade_le_abs [OF assms] by (simp add: p2_52_ulp le_divide_eq)

lemma p2_nonneg [simp]: "0 \<le> p2 e"
  using p2_pos [of e] by linarith

lemma ulp64_nonneg [simp]: "0 \<le> ulp64 x"
  using ulp64_pos [of x] by linarith

lemma binary64_exact:
  assumes "representable64 x"
  shows "binary64 x = x"
proof (cases "x = 0")
  case True
  then show ?thesis by (simp add: binary64_def)
next
  case False
  from assms obtain m e :: int where m: "\<bar>m\<bar> < 2 ^ 53" and e: "- 1074 \<le> e"
    and x: "x = of_int m * p2 e"
    unfolding representable64_def by blast
  have "\<bar>x\<bar> = \<bar>of_int m\<bar> * p2 e" unfolding x by (simp add: abs_mult)
  also have "\<dots> < 2 ^ 53 * p2 e"
  proof (rule mult_strict_right_mono)
    from m have "\<bar>of_int m :: real\<bar> < of_int (2 ^ 53)" 
      by (metis of_int_abs of_int_less_iff)
    then show "\<bar>of_int m :: real\<bar> < 2 ^ 53" by simp
  qed simp
  also have "\<dots> = p2 (53 + e)" by (simp add: p2_add, simp add: p2_def)
  finally have lt: "\<bar>x\<bar> < p2 (53 + e)" .
  have "p2 \<lfloor>log 2 \<bar>x\<bar>\<rfloor> \<le> \<bar>x\<bar>"
    using False by (intro floor_log2_bounds) simp
  with lt have "p2 \<lfloor>log 2 \<bar>x\<bar>\<rfloor> < p2 (53 + e)" by linarith
  then have "\<lfloor>log 2 \<bar>x\<bar>\<rfloor> < 53 + e"
    by (simp add: p2_powr)
  with e have be: "binade x - 52 \<le> e" by (simp add: binade_def)
  define k where "k = nat (e - (binade x - 52))"
  define u where "u = ulp64 x"
  have upos: "0 < u" by (simp add: u_def)
  have ek: "e = (binade x - 52) + int k" using be by (simp add: k_def)
  have "p2 e = p2 (binade x - 52) * p2 (int k)" by (subst ek) (rule p2_add)
  then have pe: "p2 e = u * of_int (2 ^ k)"
    by (simp add: u_def ulp64_def p2_def)
  have xu: "x = of_int (m * 2 ^ k) * u"
    using x pe by simp
  then have "x / u = of_int (m * 2 ^ k)" using upos by simp
  then have "round_even (x / u) = m * 2 ^ k" by (simp only: round_even_of_int)
  then have "binary64 x = of_int (m * 2 ^ k) * u"
    using False by (simp add: binary64_def u_def)
  also have "\<dots> = x" using xu by simp
  finally show ?thesis .
qed

lemma binary64_nonneg: "0 \<le> x \<Longrightarrow> 0 \<le> binary64 x"
proof -
  assume "0 \<le> x"
  then have "0 \<le> x / ulp64 x" by (intro divide_nonneg_nonneg) simp_all
  then have "round_even 0 \<le> round_even (x / ulp64 x)" by (rule round_even_mono)
  then have "0 \<le> round_even (x / ulp64 x)" 
    using round_even_of_int [of 0] by simp
  then show ?thesis by (simp add: binary64_def)
qed

lemma binary64_nonpos: "x \<le> 0 \<Longrightarrow> binary64 x \<le> 0"
proof -
  assume "x \<le> 0"
  then have "x / ulp64 x \<le> 0" by (intro divide_nonpos_nonneg) simp_all
  then have "round_even (x / ulp64 x) \<le> round_even 0" by (rule round_even_mono)
  then have "round_even (x / ulp64 x) \<le> 0" 
    using round_even_of_int [of 0] by simp
  then show ?thesis by (simp add: binary64_def mult_le_0_iff)
qed

lemma binary64_upper:
  assumes "0 < x"
  shows "binary64 x \<le> p2 (binade x + 1)"
proof -
  have "x / ulp64 x \<le> of_int (2 ^ 53)"
    using scaled_lt [of x] assms by simp
  then have "round_even (x / ulp64 x) \<le> round_even (of_int (2 ^ 53))"
    by (rule round_even_mono)
  then have "round_even (x / ulp64 x) \<le> 2 ^ 53" by (simp only: round_even_of_int)
  then have "(of_int (round_even (x / ulp64 x)) :: real) \<le> of_int (2 ^ 53)"
    by (simp only: of_int_le_iff)
  then have "of_int (round_even (x / ulp64 x)) * ulp64 x \<le> 2 ^ 53 * ulp64 x"
    by (simp add: mult_right_mono)
  then show ?thesis using assms by (simp add: binary64_def p2_53_ulp)
qed

lemma binary64_lower:
  assumes "0 < x" "- 1022 \<le> \<lfloor>log 2 x\<rfloor>"
  shows "p2 (binade x) \<le> binary64 x"
proof -
  have "of_int (2 ^ 52) \<le> x / ulp64 x"
    using scaled_ge [of x] assms by simp
  then have "round_even (of_int (2 ^ 52)) \<le> round_even (x / ulp64 x)"
    by (rule round_even_mono)
  then have "2 ^ 52 \<le> round_even (x / ulp64 x)" by (simp only: round_even_of_int)
  then have "(of_int (2 ^ 52) :: real) \<le> of_int (round_even (x / ulp64 x))"
    by (simp only: of_int_le_iff)
  then have "2 ^ 52 * ulp64 x \<le> of_int (round_even (x / ulp64 x)) * ulp64 x"
    by (simp add: mult_right_mono)
  then show ?thesis using assms by (simp add: binary64_def p2_52_ulp)
qed

lemma binary64_mono_pos:
  assumes "0 < x" "x \<le> y"
  shows "binary64 x \<le> binary64 y"
proof (cases "binade x = binade y")
  case True
  then have u: "ulp64 x = ulp64 y" by (simp add: ulp64_def)
  from assms have "x / ulp64 y \<le> y / ulp64 y" by (intro divide_right_mono) simp_all
  then have "round_even (x / ulp64 y) \<le> round_even (y / ulp64 y)" by (rule round_even_mono)
  then have "(of_int (round_even (x / ulp64 y)) :: real) * ulp64 y
      \<le> of_int (round_even (y / ulp64 y)) * ulp64 y"
    by (simp add: mult_right_mono)
  with assms u show ?thesis by (simp add: binary64_def)
next
  case False
  with binade_mono [OF assms] have lt: "binade x + 1 \<le> binade y" by simp
  have ypos: "0 < y" using assms by simp
  from lt have "- 1022 < binade y" unfolding binade_def [of x] by simp
  then have "- 1022 \<le> \<lfloor>log 2 y\<rfloor>" using ypos by (simp add: binade_def max_def split: if_splits)
  from binary64_lower [OF ypos this] have "p2 (binade y) \<le> binary64 y" .
  moreover have "binary64 x \<le> p2 (binade x + 1)" by (rule binary64_upper [OF assms(1)])
  moreover have "p2 (binade x + 1) \<le> p2 (binade y)" by (rule p2_mono [OF lt])
  ultimately show ?thesis by linarith
qed

lemma ulp64_neq0 [simp]: "ulp64 x \<noteq> 0"
  using ulp64_pos [of x] by linarith

lemma round_even_minus: "round_even (- y) = - round_even y"
proof (cases "y = of_int \<lfloor>y\<rfloor>")
  case True
  then obtain m :: int where "y = of_int m" ..
  then have "- y = of_int (- m)" by simp
  then have "round_even (- y) = - m" by (simp only: round_even_of_int)
  with \<open>y = of_int m\<close> show ?thesis by simp
next
  case False
  with of_int_floor_le [of y] have lt: "of_int \<lfloor>y\<rfloor> < y" by linarith
  define f where "f = \<lfloor>y\<rfloor>"
  define d where "d = y - of_int f"
  have d: "0 < d" "d < 1" using lt by (simp_all add: d_def f_def) linarith
  have y: "y = of_int f + d" by (simp add: d_def)
  have fl: "\<lfloor>- y\<rfloor> = - f - 1"
  proof (rule floor_unique)
    show "of_int (- f - 1) \<le> - y" using d by (simp add: y)
    show "- y < of_int (- f - 1) + 1" using d by (simp add: y)
  qed
  have d': "- y - of_int (- f - 1) = 1 - d" by (simp add: y)
  have par: "even (- f - 1) \<longleftrightarrow> odd f" by simp
  have r: "round_even y = (if d < 1 / 2 then f else if 1 / 2 < d then f + 1
      else if even f then f else f + 1)"
    unfolding round_even_def Let_def f_def [symmetric] d_def [symmetric] ..
  have r': "round_even (- y) = (if 1 - d < 1 / 2 then - f - 1 else if 1 / 2 < 1 - d then - f
      else if odd f then - f - 1 else - f)"
    unfolding round_even_def Let_def fl d' par by simp
  show ?thesis unfolding r r' by auto
qed

lemma ulp64_minus [simp]: "ulp64 (- x) = ulp64 x"
  by (simp add: ulp64_def)

lemma binary64_minus: "binary64 (- x) = - binary64 x"
  by (simp add: binary64_def round_even_minus)

lemma binary64_mono:
  assumes "x \<le> y"
  shows "binary64 x \<le> binary64 y"
proof -
  consider "0 < x" | "x \<le> 0" "0 \<le> y" | "y < 0" by linarith
  then show ?thesis
  proof cases
    case 1
    then show ?thesis using assms by (rule binary64_mono_pos)
  next
    case 2
    then have "binary64 x \<le> 0" "0 \<le> binary64 y"
      by (simp_all add: binary64_nonpos binary64_nonneg)
    then show ?thesis by linarith
  next
    case 3
    with assms have "0 < - y" "- y \<le> - x" by simp_all
    then have "binary64 (- y) \<le> binary64 (- x)" by (rule binary64_mono_pos)
    then show ?thesis by (simp add: binary64_minus)
  qed
qed

lemma rounding_binary64: "rounding binary64"
  by (simp add: rounding_def binary64_mono binary64_exact)

lemma rounding_id: "rounding (\<lambda>x. x)"
  by (simp add: rounding_def)

lemma binary64_error:
  assumes "p2 (- 1022) \<le> \<bar>x\<bar>"
  shows "\<bar>binary64 x - x\<bar> \<le> \<bar>x\<bar> / 2 ^ 53"
proof -
  from assms p2_pos [of "- 1022"] have "0 < \<bar>x\<bar>" by linarith
  then have nz: "x \<noteq> 0" by simp
  from assms have "2 powr of_int (- 1022) \<le> \<bar>x\<bar>" by (simp only: p2_powr)
  then have "of_int (- 1022) \<le> log 2 \<bar>x\<bar>"
    using \<open>0 < \<bar>x\<bar>\<close> by (simp only: le_log_iff) 
  then have n: "- 1022 \<le> \<lfloor>log 2 \<bar>x\<bar>\<rfloor>" by (simp only: le_floor_iff)
  have ux: "2 ^ 52 * ulp64 x \<le> \<bar>x\<bar>"
    using binade_le_abs [OF nz n] by (simp add: p2_52_ulp)
  have "\<bar>of_int (round_even (x / ulp64 x)) - x / ulp64 x\<bar> \<le> 1 / 2"
    by (rule round_even_near)
  then have "\<bar>of_int (round_even (x / ulp64 x)) - x / ulp64 x\<bar> * ulp64 x \<le> 1 / 2 * ulp64 x"
    by (rule mult_right_mono) simp
  moreover have "of_int (round_even (x / ulp64 x)) * ulp64 x - x
      = (of_int (round_even (x / ulp64 x)) - x / ulp64 x) * ulp64 x"
    using ulp64_pos [of x] by (simp add: left_diff_distrib)
  ultimately have "\<bar>of_int (round_even (x / ulp64 x)) * ulp64 x - x\<bar> \<le> ulp64 x / 2"
    by (simp add: abs_mult)
  with ux nz show ?thesis by (simp add: binary64_def)
qed

lemma binary64_eval:
  assumes "p2 E \<le> \<bar>x\<bar>" "\<bar>x\<bar> < p2 (E + 1)" "- 1022 \<le> E"
    and "\<bar>x / p2 (E - 52) - of_int m\<bar> < 1 / 2"
  shows "binary64 x = of_int m * p2 (E - 52)"
proof -
  from assms(1) p2_pos [of E] have "0 < \<bar>x\<bar>" by linarith
  then have nz: "x \<noteq> 0" by simp
  have "\<lfloor>log 2 \<bar>x\<bar>\<rfloor> = E" by (rule floor_log2_eq [OF assms(1,2)])
  with assms(3) have "binade x = E" by (simp add: binade_def)
  then have u: "ulp64 x = p2 (E - 52)" by (simp add: ulp64_def)
  have "round_even (x / p2 (E - 52)) = m" by (rule round_even_unique [OF assms(4)])
  with nz u show ?thesis by (simp add: binary64_def)
qed

lemma representable64_int: "\<bar>i\<bar> < 2 ^ 53 \<Longrightarrow> representable64 (of_int i)"
  unfolding representable64_def by (intro exI [of _ i] exI [of _ 0]) (simp add: p2_def)

lemma rounding_mono: "rounding rnd \<Longrightarrow> x \<le> y \<Longrightarrow> rnd x \<le> rnd y"
  by (simp add: rounding_def)

lemma rounding_exact: "rounding rnd \<Longrightarrow> representable64 x \<Longrightarrow> rnd x = x"
  by (simp add: rounding_def)

lemma rounding_int: "rounding rnd \<Longrightarrow> \<bar>i\<bar> < 2 ^ 53 \<Longrightarrow> rnd (of_int i) = of_int i"
  by (simp add: rounding_exact representable64_int)

lemma rounding_0: "rounding rnd \<Longrightarrow> rnd 0 = 0"
  using rounding_int [of rnd 0] by simp

lemma rounding_1: "rounding rnd \<Longrightarrow> rnd 1 = 1"
  using rounding_int [of rnd 1] by simp

lemma rounding_numeral:
  "rounding rnd \<Longrightarrow> (numeral k :: int) < 2 ^ 53 \<Longrightarrow> rnd (numeral k) = numeral k"
  using rounding_int [of rnd "numeral k"] by simp

lemma rounding_neg_numeral:
  "rounding rnd \<Longrightarrow> (numeral k :: int) < 2 ^ 53 \<Longrightarrow> rnd (- numeral k) = - numeral k"
  using rounding_int [of rnd "- numeral k"] by simp

lemma rounding_half: "rounding rnd \<Longrightarrow> rnd (1 / 2) = 1 / 2"
proof -
  assume r: "rounding rnd"
  have "representable64 (1 / 2)"
    unfolding representable64_def by (intro exI [of _ 1] exI [of _ "- 1"]) (simp add: p2_def)
  with r show ?thesis by (rule rounding_exact)
qed

lemma binary64_sqrt2: "binary64 (sqrt 2) = 6369051672525773 / 4503599627370496"
proof -
  have lo: "(6369051672525773 - 1 / 2) / 4503599627370496 < sqrt 2"
    by (rule real_less_rsqrt) (simp add: power2_eq_square)
  have hi: "sqrt 2 < (6369051672525773 + 1 / 2) / 4503599627370496"
    by (rule real_less_lsqrt) (simp_all add: power2_eq_square)
  have "binary64 (sqrt 2) = of_int 6369051672525773 * p2 (0 - 52)"
  proof (rule binary64_eval)
    show "p2 0 \<le> \<bar>sqrt 2\<bar>" using lo by (simp add: p2_def)
    show "\<bar>sqrt 2\<bar> < p2 (0 + 1)" using hi by (simp add: p2_def)
    have sc: "sqrt 2 / p2 (0 - 52) = sqrt 2 * 4503599627370496"
      by (simp add: p2_def)
    have "6369051672525773 - 1 / 2 < sqrt 2 * 4503599627370496"
      and "sqrt 2 * 4503599627370496 < 6369051672525773 + 1 / 2"
      using lo hi by (simp_all add: field_simps)
    then show "\<bar>sqrt 2 / p2 (0 - 52) - of_int 6369051672525773\<bar> < 1 / 2"
      unfolding sc of_int_numeral by linarith
  qed simp
  then show ?thesis by (simp add: p2_def)
qed

lemma binary64_sqrt2_sq:
  "binary64 (6369051672525773 / 4503599627370496 * (6369051672525773 / 4503599627370496))
     = 4503599627370497 / 2251799813685248"
proof -
  have "binary64 (6369051672525773 / 4503599627370496 * (6369051672525773 / 4503599627370496))
      = of_int 4503599627370497 * p2 (1 - 52)"
    by (rule binary64_eval) (simp_all add: p2_def)
  then show ?thesis by (simp add: p2_def)
qed

lemma binary64_quot2:
  "binary64 (2 / (4503599627370497 / 2251799813685248))
     = 4503599627370495 / 4503599627370496"
proof -
  have "binary64 (2 / (4503599627370497 / 2251799813685248))
      = of_int 9007199254740990 * p2 (- 1 - 52)"
    by (rule binary64_eval) (simp_all add: p2_def)
  then show ?thesis by (simp add: p2_def)
qed

section \<open>Cosine similarity, coverage update and marginal gain\<close>

text \<open>
  The similarity matrix is square and has no negative entry.  In exact arithmetic the
  self-similarity of a non-zero vector is 1 and, by the inequality of Cauchy and Schwarz,
  no similarity exceeds 1.  The coverage update never lowers an entry, and for a monotone
  rounding the marginal gain of an item can only shrink when the coverage grows, and the
  objective can only grow.
\<close>

lemma similarityMatrix_length: "length (similarityMatrix rnd e) = length e"
  by (simp add: similarityMatrix_def Let_def)

lemma similarityMatrix_row_length:
  "i < length e \<Longrightarrow> length (similarityMatrix rnd e ! i) = length e"
  by (simp add: similarityMatrix_def Let_def)

lemma similarityMatrix_nth:
  "i < length e \<Longrightarrow> j < length e \<Longrightarrow>
   similarityMatrix rnd e ! i ! j = max 0 (cosineSimilarity rnd (e ! i) (e ! j))"
  by (simp add: similarityMatrix_def Let_def max_def)

lemma similarityMatrix_nonneg:
  "i < length e \<Longrightarrow> j < length e \<Longrightarrow> 0 \<le> similarityMatrix rnd e ! i ! j"
  by (simp add: similarityMatrix_nth)

lemma cosineLoop_sums:
  "length a = length b \<Longrightarrow>
   cosineLoop (\<lambda>x. x) a b (d, na, nb) =
     (d + (\<Sum>(x, y)\<leftarrow>zip a b. x * y), na + (\<Sum>x\<leftarrow>a. x * x), nb + (\<Sum>y\<leftarrow>b. y * y))"
  by (induction a b arbitrary: d na nb rule: list_induct2) (simp_all add: algebra_simps)

lemma cosineLoop_self:
  "cosineLoop rnd v v (q, q, q) = (q', na, nb) \<Longrightarrow> na = q' \<and> nb = q'"
  by (induction v arbitrary: q) auto

lemma sum_squares_nonneg: "0 \<le> (\<Sum>x\<leftarrow>v. x * x :: real)"
  by (induction v) simp_all

lemma sum_squares_zero_iff: "(\<Sum>x\<leftarrow>v. x * x :: real) = 0 \<longleftrightarrow> (\<forall>x\<in>set v. x = 0)"
proof (induction v)
  case Nil
  then show ?case by simp
next
  case (Cons a v)
  have "0 \<le> a * a" by simp
  with sum_squares_nonneg [of v] Cons show ?case
    by (auto simp add: add_nonneg_eq_0_iff)
qed

lemma cosineSimilarity_self_exact:
  assumes "\<exists>x\<in>set v. x \<noteq> 0"
  shows "cosineSimilarity (\<lambda>x. x) v v = 1"
proof -
  let ?q = "\<Sum>x\<leftarrow>v. x * x"
  have nz: "?q \<noteq> 0" using assms by (simp add: sum_squares_zero_iff)
  have dot: "(\<Sum>(x, y)\<leftarrow>zip v v. x * y) = ?q"
    by (simp add: zip_same_conv_map comp_def)
  have "sqrt ?q * sqrt ?q = ?q"
    using sum_squares_nonneg [of v] by simp
  with nz dot show ?thesis
    by (simp add: cosineSimilarity_def cosineLoop_sums)
qed

lemma cauchy_step:
  fixes d A B x y :: real
  assumes dAB: "d * d \<le> A * B" and A: "0 \<le> A" and B: "0 \<le> B"
  shows "(d + x * y) * (d + x * y) \<le> (A + x * x) * (B + y * y)"
proof -
  let ?r = "A * (y * y) + B * (x * x)"
  have r0: "0 \<le> ?r" using A B by simp
  have "(d * d) * (4 * (x * x) * (y * y)) \<le> (A * B) * (4 * (x * x) * (y * y))"
    by (rule mult_right_mono [OF dAB]) simp
  moreover have "0 \<le> (A * (y * y) - B * (x * x))\<^sup>2" by simp
  ultimately have "(2 * d * x * y)\<^sup>2 \<le> ?r\<^sup>2"
    by (simp add: power2_eq_square algebra_simps)
  then have "2 * d * x * y \<le> ?r"
    using r0 by (rule power2_le_imp_le)
  then show ?thesis by (simp add: algebra_simps dAB add_mono)
qed

lemma cauchy_schwarz_list:
  "length a = length b \<Longrightarrow>
   (\<Sum>(x, y)\<leftarrow>zip a b. x * y) * (\<Sum>(x, y)\<leftarrow>zip a b. x * y)
     \<le> (\<Sum>x\<leftarrow>a. x * x) * (\<Sum>y\<leftarrow>b. y * y :: real)"
proof (induction a b rule: list_induct2)
  case Nil
  then show ?case by simp
next
  case (Cons x xs y ys)
  have "((\<Sum>(x, y)\<leftarrow>zip xs ys. x * y) + x * y) * ((\<Sum>(x, y)\<leftarrow>zip xs ys. x * y) + x * y)
      \<le> ((\<Sum>x\<leftarrow>xs. x * x) + x * x) * ((\<Sum>y\<leftarrow>ys. y * y) + y * y)"
    by (rule cauchy_step [OF Cons.IH sum_squares_nonneg sum_squares_nonneg])
  then show ?case by (simp add: add.commute)
qed

lemma cosineSimilarity_le_1_exact: "cosineSimilarity (\<lambda>x. x) a b \<le> 1"
proof (cases "length a = length b")
  case False
  then show ?thesis by (simp add: cosineSimilarity_def)
next
  case True
  let ?d = "\<Sum>(x, y)\<leftarrow>zip a b. x * y"
  let ?A = "\<Sum>x\<leftarrow>a. x * x" and ?B = "\<Sum>y\<leftarrow>b. y * y"
  have "?d\<^sup>2 \<le> ?A * ?B"
    using cauchy_schwarz_list [OF True] by (simp add: power2_eq_square)
  then have "sqrt (?d\<^sup>2) \<le> sqrt (?A * ?B)" by (rule real_sqrt_le_mono)
  then have "\<bar>?d\<bar> \<le> sqrt ?A * sqrt ?B" by (simp only: real_sqrt_abs real_sqrt_mult)
  then have le: "?d \<le> sqrt ?A * sqrt ?B" by simp
  show ?thesis
  proof (cases "?A = 0 \<or> ?B = 0")
    case True
    with \<open>length a = length b\<close> show ?thesis
      by (simp add: cosineSimilarity_def cosineLoop_sums)
  next
    case False
    then have "0 < sqrt ?A * sqrt ?B"
      using sum_squares_nonneg [of a] sum_squares_nonneg [of b] by simp
    with le False \<open>length a = length b\<close> show ?thesis
      by (simp add: cosineSimilarity_def cosineLoop_sums)
  qed
qed

lemma similarityMatrix_le_1_exact:
  assumes "i < length e" "j < length e"
  shows "similarityMatrix (\<lambda>x. x) e ! i ! j \<le> 1"
  using assms cosineSimilarity_le_1_exact [of "e ! i" "e ! j"]
  by (simp add: similarityMatrix_nth)

lemma updateCoverage_length [simp]: "length (updateCoverage n row cov) = length cov"
  by (induction n) (simp_all add: updateCoverage_def)

lemma updateCoverage_Suc:
  "updateCoverage (Suc n) row cov =
     (let c = updateCoverage n row cov in if row ! n > c ! n then c[n := row ! n] else c)"
  by (simp add: updateCoverage_def)

lemma updateCoverage_nth:
  "j < length cov \<Longrightarrow>
   updateCoverage n row cov ! j = (if j < n then max (row ! j) (cov ! j) else cov ! j)"
proof (induction n)
  case 0
  then show ?case by (simp add: updateCoverage_def)
next
  case (Suc n)
  then show ?case
    by (auto simp add: updateCoverage_Suc Let_def nth_list_update max_def less_Suc_eq)
qed

lemma updateCoverage_mono: "j < length cov \<Longrightarrow> cov ! j \<le> updateCoverage n row cov ! j"
  by (simp add: updateCoverage_nth)

lemma fold_rounded_mono:
  assumes mono: "\<And>x y. x \<le> y \<Longrightarrow> rnd x \<le> rnd y"
    and "\<forall>i\<in>set xs. f i \<le> g i" and "a \<le> (b :: real)"
  shows "fold (\<lambda>i acc. rnd (acc + f i)) xs a \<le> fold (\<lambda>i acc. rnd (acc + g i)) xs b"
  using assms(2,3)
proof (induction xs arbitrary: a b)
  case Nil
  then show ?case by simp
next
  case (Cons i xs)
  then have "rnd (a + f i) \<le> rnd (b + g i)" by (intro mono add_mono) simp_all
  with Cons show ?case by simp
qed

lemma gain_fold:
  "computeMarginalGainDiversity rnd i cov sim =
     fold (\<lambda>j acc. rnd (acc + rnd (max (sim ! i ! j) (cov ! j) - cov ! j))) [0..<length sim] 0"
proof -
  have *: "\<And>r c :: real. (if c < r then r else c) = max r c"
    by (simp add: max_def)
  show ?thesis
    by (simp add: computeMarginalGainDiversity_def Let_def *)
qed

lemma gain_antimono:
  assumes r: "rounding rnd" and c: "\<forall>j<length sim. cov ! j \<le> cov' ! j"
  shows "computeMarginalGainDiversity rnd i cov' sim \<le> computeMarginalGainDiversity rnd i cov sim"
  unfolding gain_fold
proof (rule fold_rounded_mono)
  show "\<And>x y. x \<le> y \<Longrightarrow> rnd x \<le> rnd y" using r by (simp add: rounding_def)
  show "\<forall>j\<in>set [0..<length sim].
      rnd (max (sim ! i ! j) (cov' ! j) - cov' ! j) \<le> rnd (max (sim ! i ! j) (cov ! j) - cov ! j)"
  proof
    fix j assume "j \<in> set [0..<length sim]"
    then have "cov ! j \<le> cov' ! j" using c by simp
    then have "max (sim ! i ! j) (cov' ! j) - cov' ! j \<le> max (sim ! i ! j) (cov ! j) - cov ! j"
      by (simp add: max_def)
    then show "rnd (max (sim ! i ! j) (cov' ! j) - cov' ! j)
        \<le> rnd (max (sim ! i ! j) (cov ! j) - cov ! j)"
      using r by (simp add: rounding_def)
  qed
qed simp

lemma coverage_after_snoc:
  "coverage_after sim n (sel @ [b]) = updateCoverage n (sim ! b) (coverage_after sim n sel)"
  by (simp add: coverage_after_def)

lemma coverage_after_length [simp]: "length (coverage_after sim n sel) = n"
  by (induction sel rule: rev_induct) (simp_all add: coverage_after_snoc, simp add: coverage_after_def)

lemma coverageSum_fold:
  "coverageSum rnd cov = fold (\<lambda>j acc. rnd (acc + cov ! j)) [0..<length cov] 0"
proof -
  have "fold (\<lambda>val sum. rnd (sum + val)) (map ((!) cov) [0..<length cov]) 0
      = fold (\<lambda>j acc. rnd (acc + cov ! j)) [0..<length cov] 0"
    by (simp add: fold_map comp_def)
  then show ?thesis by (simp add: coverageSum_def map_nth)
qed

lemma coverageSum_mono:
  assumes r: "rounding rnd" and "length xs = length ys" "\<forall>j<length xs. xs ! j \<le> ys ! j"
  shows "coverageSum rnd xs \<le> coverageSum rnd ys"
  unfolding coverageSum_fold assms(2) [symmetric]
  by (rule fold_rounded_mono) (use assms in \<open>simp_all add: rounding_def\<close>)

lemma objective_snoc_mono:
  assumes r: "rounding rnd"
  shows "objective rnd sim n sel \<le> objective rnd sim n (sel @ [b])"
proof -
  have "coverageSum rnd (coverage_after sim n sel) \<le> coverageSum rnd (coverage_after sim n (sel @ [b]))"
    by (rule coverageSum_mono [OF r]) (simp_all add: coverage_after_snoc updateCoverage_mono)
  then have "coverageSum rnd (coverage_after sim n sel) / real n
      \<le> coverageSum rnd (coverage_after sim n (sel @ [b])) / real n"
    by (simp add: divide_right_mono)
  then show ?thesis using r by (simp add: objective_def rounding_def)
qed

lemma objective_take_mono:
  assumes r: "rounding rnd"
  shows "i \<le> j \<Longrightarrow> objective rnd sim n (take i sel) \<le> objective rnd sim n (take j sel)"
proof (induction j)
  case 0
  then show ?case by simp
next
  case (Suc j)
  show ?case
  proof (cases "i = Suc j")
    case True
    then show ?thesis by simp
  next
    case False
    with Suc have le: "objective rnd sim n (take i sel) \<le> objective rnd sim n (take j sel)" by simp
    show ?thesis
    proof (cases "j < length sel")
      case True
      then have "take (Suc j) sel = take j sel @ [sel ! j]"
        by (rule take_Suc_conv_app_nth)
      with le objective_snoc_mono [OF r, of sim n "take j sel" "sel ! j"] show ?thesis by simp
    next
      case False
      with le show ?thesis by simp
    qed
  qed
qed

lemma trajectory_snoc:
  "trajectory rnd sim n (sel @ [b]) = trajectory rnd sim n sel @ [objective rnd sim n (sel @ [b])]"
  by (simp add: trajectory_def)

lemma trajectory_length [simp]: "length (trajectory rnd sim n sel) = length sel"
  by (simp add: trajectory_def)

lemma trajectory_sorted: "rounding rnd \<Longrightarrow> sorted (trajectory rnd sim n sel)"
  unfolding trajectory_def sorted_iff_nth_mono
  by (simp add: objective_take_mono)

lemma delta_append:
  assumes "t \<le> length vs" "2 \<le> t"
  shows "delta rnd (vs @ ws) t = delta rnd vs t"
proof -
  from assms have "t - 1 < length vs" "t - 2 < length vs" by arith+
  then show ?thesis by (simp add: delta_def nth_append)
qed

section \<open>The loops of lazyGreedySelection\<close>

text \<open>
  One run of the inner loop from a state that satisfies the queue invariant accepts an item
  whose gain no remaining item exceeds; the outer loop keeps \<open>outer_inv\<close>.
\<close>

lemma whileLoop_cases:
  "(\<exists>q. whileLoop rnd sim n it s = s\<lparr>pq := q\<rparr>) \<or>
   (\<exists>b\<in>remaining s. \<exists>q. whileLoop rnd sim n it s =
      s\<lparr>selected := selected s @ [b], remaining := remaining s - {b},
        currentCoverage := updateCoverage n (sim ! b) (currentCoverage s), pq := q\<rparr>)"
proof (induction rnd sim n it s rule: whileLoop.induct)
  case (1 rnd sim n it s)
  show ?case
  proof (cases "pq s")
    case Nil
    then have "whileLoop rnd sim n it s = s\<lparr>pq := []\<rparr>"
      by (subst whileLoop.simps) simp
    then show ?thesis by blast
  next
    case (Cons x rest)
    obtain g e b where x: "x = (g, e, b)" by (cases x)
    note pq = Cons [unfolded x]
    show ?thesis
    proof (cases "b \<in> remaining s")
      case False
      then have eq: "whileLoop rnd sim n it s = whileLoop rnd sim n it (s\<lparr>pq := rest\<rparr>)"
        using pq by (subst whileLoop.simps) simp
      from "1.IH"(1) [OF pq refl refl False] show ?thesis
        unfolding eq by simp
    next
      case True
      show ?thesis
      proof (cases "e = it")
        case eq: True
        have "whileLoop rnd sim n it s =
          s\<lparr>selected := selected s @ [b], remaining := remaining s - {b},
            currentCoverage := updateCoverage n (sim ! b) (currentCoverage s), pq := rest\<rparr>"
          using pq True eq by (subst whileLoop.simps) simp
        with True show ?thesis by blast
      next
        case ne: False
        let ?s' = "s\<lparr>pq := sort_key fst (rest @ [(- computeMarginalGainDiversity rnd b (currentCoverage s) sim, it, b)])\<rparr>"
        have eq: "whileLoop rnd sim n it s = whileLoop rnd sim n it ?s'"
          using pq True ne by (subst whileLoop.simps) (simp add: Let_def)
        from "1.IH"(2) [OF pq refl refl _ ne refl] True show ?thesis
          unfolding eq by simp
      qed
    qed
  qed
qed

lemma whileLoop_coverage_cases:
  "currentCoverage (whileLoop rnd sim n it s) = currentCoverage s \<or>
   (\<exists>b\<in>remaining s. currentCoverage (whileLoop rnd sim n it s)
       = updateCoverage n (sim ! b) (currentCoverage s))"
  using whileLoop_cases [of rnd sim n it s] by auto

lemma whileLoop_selected_cases:
  "selected (whileLoop rnd sim n it s) = selected s \<or>
   (\<exists>b. selected (whileLoop rnd sim n it s) = selected s @ [b])"
  using whileLoop_cases [of rnd sim n it s] by auto

lemma distinct_map_sort_key:
  "distinct (map h (sort_key f xs)) \<longleftrightarrow> distinct (map h xs)"
proof -
  have "mset (map h (sort_key f xs)) = mset (map h xs)" by simp
  then show ?thesis by (rule mset_eq_imp_distinct_iff)
qed

lemma queue_inv_repush:
  assumes inv: "queue_inv rnd sim n it s" and pq: "pq s = (g, e, b) # rest" and ne: "e \<noteq> it"
  shows "queue_inv rnd sim n it
     (s\<lparr>pq := sort_key fst (rest @ [(- computeMarginalGainDiversity rnd b (currentCoverage s) sim, it, b)])\<rparr>)"
  using inv pq ne
  unfolding queue_inv_def
  by (auto simp add: distinct_map_sort_key sorted_sort_key)

lemma queue_inv_accept:
  assumes r: "rounding rnd"
    and inv: "queue_inv rnd sim n it s" and pq: "pq s = (g, it, b) # rest"
  shows "queue_inv rnd sim n (Suc it)
     (s\<lparr>selected := selected s @ [b], remaining := remaining s - {b},
        currentCoverage := updateCoverage n (sim ! b) (currentCoverage s), pq := rest\<rparr>)"
proof -
  let ?cov = "currentCoverage s" and ?cov' = "updateCoverage n (sim ! b) (currentCoverage s)"
  have len: "length sim = n" "length ?cov = n" using inv by (simp_all add: queue_inv_def)
  have mono: "\<forall>j<length sim. ?cov ! j \<le> ?cov' ! j"
    using len by (simp add: updateCoverage_mono)
  have gains: "\<And>i. computeMarginalGainDiversity rnd i ?cov' sim
      \<le> computeMarginalGainDiversity rnd i ?cov sim"
    by (rule gain_antimono [OF r mono])
  have ent: "\<forall>(g', e, i)\<in>set rest. e \<le> it \<and> computeMarginalGainDiversity rnd i ?cov sim \<le> - g'"
    using inv pq by (auto simp add: queue_inv_def)
  have ent': "\<forall>(g', e, i)\<in>set rest. e \<le> Suc it
      \<and> computeMarginalGainDiversity rnd i ?cov' sim \<le> - g'
      \<and> (e = Suc it \<longrightarrow> - g' = computeMarginalGainDiversity rnd i ?cov' sim)"
  proof (clarify)
    fix g' e i assume "(g', e, i) \<in> set rest"
    with ent have "e \<le> it" "computeMarginalGainDiversity rnd i ?cov sim \<le> - g'" by auto
    with gains [of i] show "e \<le> Suc it \<and> computeMarginalGainDiversity rnd i ?cov' sim \<le> - g'
      \<and> (e = Suc it \<longrightarrow> - g' = computeMarginalGainDiversity rnd i ?cov' sim)" by auto
  qed
  have dist: "distinct (map (snd \<circ> snd) rest)" "b \<notin> set (map (snd \<circ> snd) rest)"
     "insert b (set (map (snd \<circ> snd) rest)) = remaining s" "sorted (map fst rest)"
    using inv pq by (auto simp add: queue_inv_def)
  then have "set (map (snd \<circ> snd) rest) = remaining s - {b}" by auto
  with dist len ent' show ?thesis
    unfolding queue_inv_def by simp
qed

lemma head_gain_max:
  assumes inv: "queue_inv rnd sim n it s" and pq: "pq s = (g, it, b) # rest"
    and j: "j \<in> remaining s"
  shows "computeMarginalGainDiversity rnd j (currentCoverage s) sim
      \<le> computeMarginalGainDiversity rnd b (currentCoverage s) sim"
proof -
  have exact: "- g = computeMarginalGainDiversity rnd b (currentCoverage s) sim"
    using inv pq by (auto simp add: queue_inv_def)
  from j inv have "j \<in> set (map (snd \<circ> snd) (pq s))" by (simp add: queue_inv_def)
  then obtain g' e where mem: "(g', e, j) \<in> set (pq s)" by auto
  with inv have ub: "computeMarginalGainDiversity rnd j (currentCoverage s) sim \<le> - g'"
    by (auto simp add: queue_inv_def)
  from inv pq have "\<forall>x\<in>set (map fst rest). g \<le> x" by (simp add: queue_inv_def)
  with mem pq have "g \<le> g'" by (auto)
  with ub exact show ?thesis by simp
qed

lemma whileLoop_accepts:
  assumes "rounding rnd" "queue_inv rnd sim n it s" "pq s \<noteq> []"
  shows "accepted rnd sim n it s (whileLoop rnd sim n it s)
     \<and> queue_inv rnd sim n (Suc it) (whileLoop rnd sim n it s)"
  using assms
proof (induction rnd sim n it s rule: whileLoop.induct)
  case (1 rnd sim n it s)
  from \<open>pq s \<noteq> []\<close> obtain g e b rest where pq: "pq s = (g, e, b) # rest"
    by (cases "pq s") auto
  have r: "rounding rnd" by fact
  have inv: "queue_inv rnd sim n it s" by fact
  have brem: "b \<in> remaining s" using inv pq by (auto simp add: queue_inv_def)
  show ?case
  proof (cases "e = it")
    case True
    have eq: "whileLoop rnd sim n it s =
        s\<lparr>selected := selected s @ [b], remaining := remaining s - {b},
          currentCoverage := updateCoverage n (sim ! b) (currentCoverage s), pq := rest\<rparr>"
      using pq brem True by (subst whileLoop.simps) simp
    have "accepted rnd sim n it s (whileLoop rnd sim n it s)"
      unfolding accepted_def eq
      using brem pq head_gain_max [OF inv pq [unfolded True]]
      by (intro exI [of _ b] exI [of _ rest]) simp
    moreover have "queue_inv rnd sim n (Suc it) (whileLoop rnd sim n it s)"
      unfolding eq by (rule queue_inv_accept [OF r inv pq [unfolded True]])
    ultimately show ?thesis by simp
  next
    case False
    let ?s' = "s\<lparr>pq := sort_key fst (rest @ [(- computeMarginalGainDiversity rnd b (currentCoverage s) sim, it, b)])\<rparr>"
    have eq: "whileLoop rnd sim n it s = whileLoop rnd sim n it ?s'"
      using pq brem False by (subst whileLoop.simps) (simp add: Let_def)
    have inv': "queue_inv rnd sim n it ?s'" by (rule queue_inv_repush [OF inv pq False])
    have "length (pq ?s') = Suc (length rest)" by simp
    then have ne': "pq ?s' \<noteq> []" by fastforce
    have IH: "accepted rnd sim n it ?s' (whileLoop rnd sim n it ?s')
        \<and> queue_inv rnd sim n (Suc it) (whileLoop rnd sim n it ?s')"
      using "1.IH"(2) [OF pq refl refl _ False refl r inv' ne'] brem by simp
    from IH obtain b' rest' where b': "b' \<in> remaining s"
      and res: "whileLoop rnd sim n it ?s' =
        s\<lparr>selected := selected s @ [b'], remaining := remaining s - {b'},
          currentCoverage := updateCoverage n (sim ! b') (currentCoverage s), pq := rest'\<rparr>"
      and len: "Suc (length rest') = length (pq s)"
      and mx: "\<forall>j\<in>remaining s. computeMarginalGainDiversity rnd j (currentCoverage s) sim
            \<le> computeMarginalGainDiversity rnd b' (currentCoverage s) sim"
      unfolding accepted_def using pq by auto
    have "accepted rnd sim n it s (whileLoop rnd sim n it ?s')"
      unfolding accepted_def using b' res len mx by blast
    with IH show ?thesis unfolding eq by simp
  qed
qed

lemma greedy_seq_snoc:
  assumes "greedy_seq rnd sim n sel"
    and "\<forall>j\<in>{0..<n} - set sel.
        computeMarginalGainDiversity rnd j (coverage_after sim n sel) sim
          \<le> computeMarginalGainDiversity rnd b (coverage_after sim n sel) sim"
  shows "greedy_seq rnd sim n (sel @ [b])"
  unfolding greedy_seq_def
proof (intro ballI)
  fix t j
  assume t: "t \<in> {0..<length (sel @ [b])}" and j: "j \<in> {0..<n} - set (take t (sel @ [b]))"
  show "computeMarginalGainDiversity rnd j (coverage_after sim n (take t (sel @ [b]))) sim
      \<le> computeMarginalGainDiversity rnd ((sel @ [b]) ! t)
           (coverage_after sim n (take t (sel @ [b]))) sim"
  proof (cases "t < length sel")
    case True
    with assms(1) j show ?thesis
      unfolding greedy_seq_def by (simp add: nth_append)
  next
    case False
    with t have "t = length sel" by simp
    with assms(2) j show ?thesis by simp
  qed
qed

lemma outer_inv_step:
  assumes inv: "outer_inv rnd sim n it s" and acc: "accepted rnd sim n it s s'"
    and q: "queue_inv rnd sim n (Suc it) s'"
  shows "outer_inv rnd sim n (Suc it) s'"
proof -
  from acc obtain b rest' where b: "b \<in> remaining s"
    and s': "s' = s\<lparr>selected := selected s @ [b], remaining := remaining s - {b},
               currentCoverage := updateCoverage n (sim ! b) (currentCoverage s), pq := rest'\<rparr>"
    and len: "Suc (length rest') = length (pq s)"
    and mx: "\<forall>j\<in>remaining s. computeMarginalGainDiversity rnd j (currentCoverage s) sim
            \<le> computeMarginalGainDiversity rnd b (currentCoverage s) sim"
    unfolding accepted_def by blast
  have cov: "currentCoverage s = coverage_after sim n (selected s)"
    and rem: "remaining s = {0..<n} - set (selected s)"
    and grd: "greedy_seq rnd sim n (selected s)"
    using inv by (simp_all add: outer_inv_def)
  have g': "greedy_seq rnd sim n (selected s @ [b])"
    by (rule greedy_seq_snoc [OF grd]) (use mx cov rem in simp)
  have "remaining s - {b} = {0..<n} - set (selected s @ [b])"
    using rem by auto
  with inv b len g' q show ?thesis
    unfolding outer_inv_def s' by (auto simp add: coverage_after_snoc)
qed

lemma whileLoop_outer_inv:
  assumes r: "rounding rnd" and inv: "outer_inv rnd sim n it s" and lt: "it < n"
  shows "outer_inv rnd sim n (Suc it) (whileLoop rnd sim n it s)"
proof -
  from inv lt have "queue_inv rnd sim n it s" "pq s \<noteq> []"
    by (auto simp add: outer_inv_def)
  then have "accepted rnd sim n it s (whileLoop rnd sim n it s)
     \<and> queue_inv rnd sim n (Suc it) (whileLoop rnd sim n it s)"
    by (rule whileLoop_accepts [OF r])
  with inv show ?thesis by (blast intro: outer_inv_step)
qed

lemma forLoop_outer_inv:
  assumes "rounding rnd" "outer_inv rnd sim n it s" and "k < real n"
  shows "outer_inv rnd sim n (max it (nat \<lceil>k\<rceil>)) (forLoop rnd sim n k it s)"
  using assms
proof (induction rnd sim n k it s rule: forLoop.induct)
  case (1 rnd sim n k it s)
  show ?case
  proof (cases "real it < k")
    case True
    with \<open>k < real n\<close> have lt: "it < n" by simp
    from True have le: "Suc it \<le> nat \<lceil>k\<rceil>" by linarith
    have "outer_inv rnd sim n (Suc it) (whileLoop rnd sim n it s)"
      by (rule whileLoop_outer_inv [OF "1.prems"(1,2) lt])
    from "1.IH" [OF True "1.prems"(1) this "1.prems"(3)] le True show ?thesis
      by (subst forLoop.simps) (simp add: max_def)
  next
    case False
    then have "nat \<lceil>k\<rceil> \<le> it" by linarith
    then have mx: "max it (nat \<lceil>k\<rceil>) = it" by (rule max_absorb1)
    have fl: "forLoop rnd sim n k it s = s"
      using False by (subst forLoop.simps) simp
    show ?thesis unfolding mx fl by fact
  qed
qed

lemma initialQueue_inv:
  "outer_inv rnd sim (length sim) 0
     \<lparr>selected = [], remaining = {0..<length sim}, currentCoverage = replicate (length sim) 0,
      pq = initialQueue rnd (length sim) (replicate (length sim) 0) sim, \<dots> = m\<rparr>"
proof -
  let ?n = "length sim"
  let ?c = "replicate ?n (0 :: real)"
  let ?q = "map (\<lambda>i. (- computeMarginalGainDiversity rnd i ?c sim, 0::nat, i)) [0..<?n]"
  have idx: "map (snd \<circ> snd) ?q = [0..<?n]"
    by (simp add: comp_def map_idI)
  have d: "distinct (map (snd \<circ> snd) (sort_key fst ?q))"
    unfolding distinct_map_sort_key idx by simp
  have "set (map (snd \<circ> snd) (sort_key fst ?q)) = set (map (snd \<circ> snd) ?q)"
    by (simp only: set_map set_sort)
  then have st: "set (map (snd \<circ> snd) (sort_key fst ?q)) = {0..<?n}"
    unfolding idx by simp
  have ent: "\<forall>(g, e, i)\<in>set (sort_key fst ?q).
        e \<le> 0 \<and> computeMarginalGainDiversity rnd i ?c sim \<le> - g \<and>
        (e = 0 \<longrightarrow> - g = computeMarginalGainDiversity rnd i ?c sim)"
    by auto
  show ?thesis
    unfolding outer_inv_def queue_inv_def initialQueue_def
    using d st ent by (simp add: sorted_sort_key coverage_after_def greedy_seq_def)
qed

lemma initialState_inv:
  "outer_inv rnd (similarityMatrix rnd e) (length e) 0
     (initialState rnd (similarityMatrix rnd e) (length e))"
  using initialQueue_inv [of rnd "similarityMatrix rnd e" "()"]
  by (simp add: similarityMatrix_length initialState_def)

lemma lazyGreedySelection_loop:
  assumes "rounding rnd" "k < real (length e)"
  shows "\<exists>s. lazyGreedySelection rnd e k = selected s
     \<and> outer_inv rnd (similarityMatrix rnd e) (length e) (nat \<lceil>k\<rceil>) (s :: sel_state)"
proof -
  let ?sim = "similarityMatrix rnd e" and ?n = "length e"
  from forLoop_outer_inv [OF assms(1) initialState_inv assms(2)]
  have "outer_inv rnd ?sim ?n (nat \<lceil>k\<rceil>) (forLoop rnd ?sim ?n k 0 (initialState rnd ?sim ?n))"
    by simp
  moreover have "lazyGreedySelection rnd e k
      = selected (forLoop rnd ?sim ?n k 0 (initialState rnd ?sim ?n))"
    using assms by (simp add: lazyGreedySelection_def Let_def)
  ultimately show ?thesis by blast
qed

lemma lazyGreedySelection_facts:
  assumes "rounding rnd" "k < real (length e)"
  shows "length (lazyGreedySelection rnd e k) = nat \<lceil>k\<rceil>"
    and "distinct (lazyGreedySelection rnd e k)"
    and "set (lazyGreedySelection rnd e k) \<subseteq> {0..<length e}"
    and "greedy_seq rnd (similarityMatrix rnd e) (length e) (lazyGreedySelection rnd e k)"
  using lazyGreedySelection_loop [OF assms] unfolding outer_inv_def by auto

lemma lazyGreedySelection_nonpos:
  assumes "k \<le> 0" "k < real (length e)"
  shows "lazyGreedySelection rnd e k = []"
proof -
  have "forLoop rnd sim n k 0 s = s" for sim n s
    using assms(1) by (subst forLoop.simps) simp
  with assms(2) show ?thesis
    by (simp add: lazyGreedySelection_def Let_def initialState_def)
qed

lemma lazyGreedySelection_Nil: "lazyGreedySelection rnd [] k = []"
proof (cases "0 \<le> k")
  case True
  then show ?thesis by (simp add: lazyGreedySelection_def)
next
  case False
  then show ?thesis by (intro lazyGreedySelection_nonpos) simp_all
qed

section \<open>The saturation variant\<close>

text \<open>
  The loops of \<open>lazyGreedySelectionWithSaturation\<close> make the same steps on the fields they
  share with \<open>lazyGreedySelection\<close>, and record the objective after each acceptance.
\<close>

lemma truncate_fields [simp]:
  "selected (sel_state.truncate s) = selected s"
  "remaining (sel_state.truncate s) = remaining s"
  "currentCoverage (sel_state.truncate s) = currentCoverage s"
  "pq (sel_state.truncate s) = pq s"
  by (simp_all add: sel_state.truncate_def)

lemma queue_inv_truncate [simp]:
  "queue_inv rnd sim n it (sel_state.truncate s) = queue_inv rnd sim n it s"
  by (simp add: queue_inv_def)

lemma outer_inv_truncate [simp]:
  "outer_inv rnd sim n it (sel_state.truncate s) = outer_inv rnd sim n it s"
  by (simp add: outer_inv_def)

lemma satWhileLoop_core:
  "sel_state.truncate (satWhileLoop rnd sim n thr it s)
     = whileLoop rnd sim n it (sel_state.truncate s)"
proof (induction rnd sim n thr it s rule: satWhileLoop.induct)
  case (1 rnd sim n thr it s)
  show ?case
  proof (cases "pq s")
    case Nil
    then show ?thesis
      by (subst satWhileLoop.simps, subst whileLoop.simps) simp
  next
    case (Cons x rest)
    obtain g e b where x: "x = (g, e, b)" by (cases x)
    note pq = Cons [unfolded x]
    have upd: "\<And>q. sel_state.truncate (s\<lparr>pq := q\<rparr>) = (sel_state.truncate s)\<lparr>pq := q\<rparr>"
      by (simp add: sel_state.truncate_def)
    show ?thesis
    proof (cases "b \<in> remaining s")
      case False
      with "1.IH"(1) [OF pq refl refl] pq show ?thesis
        by (subst satWhileLoop.simps, subst whileLoop.simps) (simp add: upd)
    next
      case True
      show ?thesis
      proof (cases "e = it")
        case eq: True
        with True pq show ?thesis
          by (subst satWhileLoop.simps, subst whileLoop.simps)
            (simp add: Let_def sel_state.truncate_def)
      next
        case ne: False
        with "1.IH"(2) [OF pq refl refl _ _ refl] True pq show ?thesis
          by (subst satWhileLoop.simps, subst whileLoop.simps) (simp add: upd Let_def)
      qed
    qed
  qed
qed

lemma satWhileLoop_coverage_cases:
  "currentCoverage (satWhileLoop rnd sim n thr it s) = currentCoverage s \<or>
   (\<exists>b\<in>remaining s. currentCoverage (satWhileLoop rnd sim n thr it s)
       = updateCoverage n (sim ! b) (currentCoverage s))"
proof -
  have "currentCoverage (satWhileLoop rnd sim n thr it s)
      = currentCoverage (whileLoop rnd sim n it (sel_state.truncate s))"
    by (metis satWhileLoop_core truncate_fields(3))
  with whileLoop_coverage_cases [of rnd sim n it "sel_state.truncate s"] show ?thesis
    by simp
qed

lemma satWhileLoop_values:
  "(length (selected (satWhileLoop rnd sim n thr it s)) = length (selected s) \<longrightarrow>
      valuesAcc (satWhileLoop rnd sim n thr it s) = valuesAcc s \<and>
      earlyStopK (satWhileLoop rnd sim n thr it s) = earlyStopK s) \<and>
   (length (selected (satWhileLoop rnd sim n thr it s)) \<noteq> length (selected s) \<longrightarrow>
      valuesAcc (satWhileLoop rnd sim n thr it s) =
        valuesAcc s @
          [rnd (coverageSum rnd (currentCoverage (satWhileLoop rnd sim n thr it s)) / real n)] \<and>
      earlyStopK (satWhileLoop rnd sim n thr it s) =
        (let vs = valuesAcc (satWhileLoop rnd sim n thr it s)
         in if 2 \<le> length vs \<and> delta rnd vs (length vs) < thr then Some (length vs)
            else earlyStopK s))"
proof (induction rnd sim n thr it s rule: satWhileLoop.induct)
  case (1 rnd sim n thr it s)
  show ?case
  proof (cases "pq s")
    case Nil
    then show ?thesis
      by (subst (1 2 3 4 5 6 7) satWhileLoop.simps) simp
  next
    case (Cons x rest)
    obtain g e b where x: "x = (g, e, b)" by (cases x)
    note pq = Cons [unfolded x]
    show ?thesis
    proof (cases "b \<in> remaining s")
      case False
      then have eq: "satWhileLoop rnd sim n thr it s
          = satWhileLoop rnd sim n thr it (s\<lparr>pq := rest\<rparr>)"
        using pq by (subst satWhileLoop.simps) simp
      from "1.IH"(1) [OF pq refl refl False] show ?thesis
        unfolding eq by (simp add: Let_def)
    next
      case True
      show ?thesis
      proof (cases "e = it")
        case eq: True
        have res: "satWhileLoop rnd sim n thr it s =
           (let cov = updateCoverage n (sim ! b) (currentCoverage s);
                vs = valuesAcc s @ [rnd (coverageSum rnd cov / real n)]
            in s\<lparr>selected := selected s @ [b], remaining := remaining s - {b},
                 currentCoverage := cov, pq := rest, valuesAcc := vs,
                 earlyStopK := (if 2 \<le> length vs \<and> delta rnd vs (length vs) < thr
                                then Some (length vs) else earlyStopK s)\<rparr>)"
          using True pq eq
          by (subst satWhileLoop.simps) (simp add: Let_def coverageSum_def delta_def)
        show ?thesis unfolding res by (simp add: Let_def)
      next
        case ne: False
        let ?s' = "s\<lparr>pq := sort_key fst (rest @ [(- computeMarginalGainDiversity rnd b (currentCoverage s) sim, it, b)])\<rparr>"
        have eq: "satWhileLoop rnd sim n thr it s = satWhileLoop rnd sim n thr it ?s'"
          using pq True ne by (subst satWhileLoop.simps) (simp add: Let_def)
        from "1.IH"(2) [OF pq refl refl _ ne refl] True show ?thesis
          unfolding eq by (simp add: Let_def)
      qed
    qed
  qed
qed

lemma satWhileLoop_step:
  assumes r: "rounding rnd" and inv: "sat_inv rnd sim n thr it s" and lt: "it < n"
  defines "s' \<equiv> satWhileLoop rnd sim n thr it s"
  shows "outer_inv rnd sim n (Suc it) s' \<and> valuesAcc s' = trajectory rnd sim n (selected s') \<and>
     (\<forall>t\<in>{2..it}. thr \<le> delta rnd (valuesAcc s') t) \<and>
     earlyStopK s' = (if 2 \<le> Suc it \<and> delta rnd (valuesAcc s') (Suc it) < thr
                      then Some (Suc it) else None)"
proof -
  have oi: "outer_inv rnd sim n it s" and es: "earlyStopK s = None"
    and vs: "valuesAcc s = trajectory rnd sim n (selected s)"
    and ds: "\<forall>t\<in>{2..it}. thr \<le> delta rnd (valuesAcc s) t"
    using inv unfolding sat_inv_def by blast+
  from oi lt have q: "queue_inv rnd sim n it (sel_state.truncate s)"
      "pq (sel_state.truncate s) \<noteq> []"
    by (auto simp add: outer_inv_def)
  have acc: "accepted rnd sim n it (sel_state.truncate s) (sel_state.truncate s')"
    and q': "queue_inv rnd sim n (Suc it) (sel_state.truncate s')"
    using whileLoop_accepts [OF r q] by (simp_all add: s'_def satWhileLoop_core)
  have oi': "outer_inv rnd sim n (Suc it) s'"
    using outer_inv_step [OF _ acc q'] oi by simp
  from acc obtain b rest' where
    "sel_state.truncate s' = (sel_state.truncate s)\<lparr>selected := selected s @ [b],
       remaining := remaining s - {b},
       currentCoverage := updateCoverage n (sim ! b) (currentCoverage s), pq := rest'\<rparr>"
    unfolding accepted_def by auto
  then have "selected (sel_state.truncate s') = selected s @ [b]" by simp
  then have sel': "selected s' = selected s @ [b]" by simp
  have cov': "currentCoverage s' = coverage_after sim n (selected s')"
    using oi' by (simp add: outer_inv_def)
  have len: "length (selected s) = it" using oi by (simp add: outer_inv_def)
  from sel' have ne: "length (selected s') \<noteq> length (selected s)" by simp
  from satWhileLoop_values [of rnd sim n thr it s] ne
  have v': "valuesAcc s' = valuesAcc s @ [rnd (coverageSum rnd (currentCoverage s') / real n)]"
    and e': "earlyStopK s' = (let vs = valuesAcc s'
         in if 2 \<le> length vs \<and> delta rnd vs (length vs) < thr then Some (length vs)
            else earlyStopK s)"
    unfolding s'_def by blast+
  have traj: "valuesAcc s' = trajectory rnd sim n (selected s')"
    unfolding v' cov' sel' trajectory_snoc vs objective_def ..
  have lv: "length (valuesAcc s') = Suc it"
    unfolding traj using sel' len by simp
  have "\<forall>t\<in>{2..it}. thr \<le> delta rnd (valuesAcc s') t"
    unfolding v' using ds vs len by (simp add: delta_append)
  with oi' traj e' es lv show ?thesis by (simp add: Let_def)
qed

lemma satForLoop_post:
  assumes "rounding rnd" "sat_inv rnd sim n thr it s"
  shows "sat_post rnd sim n thr (satForLoop rnd sim n thr it s)"
  using assms
proof (induction rnd sim n thr it s rule: satForLoop.induct)
  case (1 rnd sim n thr it s)
  let ?s' = "satWhileLoop rnd sim n thr it s"
  show ?case
  proof (cases "it < n")
    case False
    have oi: "outer_inv rnd sim n it s" using "1.prems" by (simp add: sat_inv_def)
    then have "it \<le> n" by (simp add: outer_inv_def)
    with False have itn: "it = n" by simp
    have fl: "satForLoop rnd sim n thr it s = s"
      using False by (subst satForLoop.simps) simp
    show ?thesis
      unfolding fl sat_post_def using "1.prems" itn
      unfolding sat_inv_def by (intro exI [of _ it]) auto
  next
    case True
    note step = satWhileLoop_step [OF "1.prems" True]
    show ?thesis
    proof (cases "earlyStopK ?s' = None")
      case stop: False
      have fl: "satForLoop rnd sim n thr it s = ?s'"
        using True stop by (subst satForLoop.simps) (simp add: Let_def)
      from step stop have "earlyStopK ?s' = Some (Suc it)" "2 \<le> Suc it"
        "delta rnd (valuesAcc ?s') (Suc it) < thr"
        by (auto split: if_splits)
      with step show ?thesis
        unfolding fl sat_post_def
        by (intro exI [of _ "Suc it"]) (auto simp add: atLeastLessThanSuc_atLeastAtMost)
    next
      case cont: True
      have fl: "satForLoop rnd sim n thr it s = satForLoop rnd sim n thr (Suc it) ?s'"
        using True cont by (subst satForLoop.simps) (simp add: Let_def)
      from step cont have "\<not> (2 \<le> Suc it \<and> delta rnd (valuesAcc ?s') (Suc it) < thr)"
        by (auto split: if_splits)
      then have "\<forall>t\<in>{2..Suc it}. thr \<le> delta rnd (valuesAcc ?s') t"
        using step by (auto simp add: le_Suc_eq not_less)
      with step cont have "sat_inv rnd sim n thr (Suc it) ?s'"
        by (simp add: sat_inv_def)
      from "1.IH" [OF True refl _ "1.prems"(1) this] cont show ?thesis
        unfolding fl by simp
    qed
  qed
qed

lemma saturation_result_ok:
  assumes r: "rounding rnd"
  shows "sat_result_ok rnd e thr (lazyGreedySelectionWithSaturation rnd e thr)"
proof -
  let ?sim = "similarityMatrix rnd e" and ?n = "length e"
  let ?init = "\<lparr>selected = [], remaining = {0..<?n}, currentCoverage = replicate ?n 0,
      pq = initialQueue rnd ?n (replicate ?n 0) ?sim, valuesAcc = [], earlyStopK = None\<rparr>"
  let ?s = "satForLoop rnd ?sim ?n thr 0 ?init"
  have "outer_inv rnd ?sim ?n 0 ?init"
    using initialQueue_inv [of rnd ?sim "\<lparr>valuesAcc = [], earlyStopK = None\<rparr>"]
    by (simp add: similarityMatrix_length)
  then have "sat_inv rnd ?sim ?n thr 0 ?init"
    by (simp add: sat_inv_def trajectory_def)
  then have "sat_post rnd ?sim ?n thr ?s" by (rule satForLoop_post [OF r])
  then obtain K where oi: "outer_inv rnd ?sim ?n K ?s"
    and vs: "valuesAcc ?s = trajectory rnd ?sim ?n (selected ?s)"
    and ds: "\<forall>t\<in>{2..<K}. thr \<le> delta rnd (valuesAcc ?s) t"
    and stop: "earlyStopK ?s = Some K \<and> 2 \<le> K \<and> delta rnd (valuesAcc ?s) K < thr
         \<or> earlyStopK ?s = None \<and> K = ?n \<and> (2 \<le> K \<longrightarrow> thr \<le> delta rnd (valuesAcc ?s) K)"
    unfolding sat_post_def by blast
  have len: "length (selected ?s) = K" and Kn: "K \<le> ?n"
    and dist: "distinct (selected ?s)" and sub: "set (selected ?s) \<subseteq> {0..<?n}"
    and grd: "greedy_seq rnd ?sim ?n (selected ?s)"
    using oi unfolding outer_inv_def by auto
  have lv: "length (valuesAcc ?s) = K" unfolding vs using len by simp
  have K: "(case earlyStopK ?s of Some t \<Rightarrow> t | None \<Rightarrow> length (valuesAcc ?s)) = K"
    using stop lv by auto
  have res: "lazyGreedySelectionWithSaturation rnd e thr =
      \<lparr>res_selected = selected ?s, res_optimalK = K, res_values = valuesAcc ?s\<rparr>"
    unfolding lazyGreedySelectionWithSaturation_def Let_def K using len by simp
  show ?thesis
    unfolding sat_result_ok_def res Let_def
    using len Kn vs dist sub grd ds stop by auto
qed

section \<open>Step counts and prefixes of the selection\<close>

text \<open>
  The counters are bounded, and the selection for a smaller \<open>k\<close> is a prefix of the
  selection for a larger one.
\<close>

lemma staleCount_le: "staleCount it q \<le> 2 * length q"
  by (simp add: staleCount_def)

lemma whileLoopPops_le: "whileLoopPops rnd sim n it s \<le> staleCount it (pq s)"
proof (induction rnd sim n it s rule: whileLoopPops.induct)
  case (1 rnd sim n it s)
  show ?case
  proof (cases "pq s")
    case Nil
    then show ?thesis by (subst whileLoopPops.simps) simp
  next
    case (Cons x rest)
    obtain g e b where x: "x = (g, e, b)" by (cases x)
    note pq = Cons [unfolded x]
    show ?thesis
    proof (cases "b \<in> remaining s")
      case False
      then have eq: "whileLoopPops rnd sim n it s
          = Suc (whileLoopPops rnd sim n it (s\<lparr>pq := rest\<rparr>))"
        using pq by (subst whileLoopPops.simps) simp
      from "1.IH"(1) [OF pq refl refl False] staleCount_drop [OF pq, of it]
      show ?thesis unfolding eq by simp
    next
      case True
      show ?thesis
      proof (cases "e = it")
        case eq: True
        have "whileLoopPops rnd sim n it s = 1"
          using pq True eq by (subst whileLoopPops.simps) simp
        then show ?thesis using pq by (simp add: staleCount_def)
      next
        case ne: False
        let ?g = "computeMarginalGainDiversity rnd b (currentCoverage s) sim"
        let ?s' = "s\<lparr>pq := sort_key fst (rest @ [(- ?g, it, b)])\<rparr>"
        have eq: "whileLoopPops rnd sim n it s = Suc (whileLoopPops rnd sim n it ?s')"
          using pq True ne by (subst whileLoopPops.simps) (simp add: Let_def)
        from "1.IH"(2) [OF pq refl refl _ ne refl] True
          staleCount_repush [OF pq ne, of "- ?g"]
        show ?thesis unfolding eq by simp
      qed
    qed
  qed
qed

lemma forLoopIterations_eq: "forLoopIterations rnd sim n k it s = nat \<lceil>k\<rceil> - it"
proof (induction rnd sim n k it s rule: forLoopIterations.induct)
  case (1 rnd sim n k it s)
  show ?case
  proof (cases "real it < k")
    case True
    then have "it < nat \<lceil>k\<rceil>" by linarith
    with "1.IH" [OF True] True show ?thesis
      by (subst forLoopIterations.simps) simp
  next
    case False
    then have "nat \<lceil>k\<rceil> \<le> it" by linarith
    with False show ?thesis by (subst forLoopIterations.simps) simp
  qed
qed

lemma forLoopPops_le:
  assumes "rounding rnd" "outer_inv rnd sim n it s" "k < real n"
  shows "forLoopPops rnd sim n k it s \<le> 2 * n * (nat \<lceil>k\<rceil> - it)"
  using assms
proof (induction rnd sim n k it s rule: forLoopPops.induct)
  case (1 rnd sim n k it s)
  show ?case
  proof (cases "real it < k")
    case True
    with \<open>k < real n\<close> have lt: "it < n" by simp
    from True have le: "Suc it \<le> nat \<lceil>k\<rceil>" by linarith
    have inv': "outer_inv rnd sim n (Suc it) (whileLoop rnd sim n it s)"
      by (rule whileLoop_outer_inv [OF "1.prems"(1,2) lt])
    have "length (pq s) \<le> n" using "1.prems"(2) by (simp add: outer_inv_def)
    with whileLoopPops_le [of rnd sim n it s] staleCount_le [of it "pq s"]
    have p: "whileLoopPops rnd sim n it s \<le> 2 * n" by simp
    have "forLoopPops rnd sim n k it s = whileLoopPops rnd sim n it s
        + forLoopPops rnd sim n k (Suc it) (whileLoop rnd sim n it s)"
      using True by (subst forLoopPops.simps) simp
    also have "\<dots> \<le> 2 * n + 2 * n * (nat \<lceil>k\<rceil> - Suc it)"
      using p "1.IH" [OF True "1.prems"(1) inv' "1.prems"(3)] by simp
    also have "\<dots> = 2 * n * Suc (nat \<lceil>k\<rceil> - Suc it)" by simp
    also have "Suc (nat \<lceil>k\<rceil> - Suc it) = nat \<lceil>k\<rceil> - it" using le by simp
    finally show ?thesis .
  next
    case False
    then show ?thesis by (subst forLoopPops.simps) simp
  qed
qed

lemma forLoop_split:
  assumes "it \<le> m" "real m \<le> k"
  shows "forLoop rnd sim n k it s = forLoop rnd sim n k m (forLoop rnd sim n (real m) it s)"
  using assms
proof (induction rnd sim n "real m" it s rule: forLoop.induct)
  case (1 rnd sim n it s)
  show ?case
  proof (cases "it < m")
    case True
    with \<open>real m \<le> k\<close> have lt: "real it < k" by simp
    from True have lt': "real it < real m" by simp
    have "forLoop rnd sim n k it s = forLoop rnd sim n k (Suc it) (whileLoop rnd sim n it s)"
      using lt by (subst forLoop.simps) simp
    also have "\<dots> = forLoop rnd sim n k m
        (forLoop rnd sim n (real m) (Suc it) (whileLoop rnd sim n it s))"
      using True "1.prems"(2) by (intro "1.hyps" [OF lt']) simp_all
    also have "forLoop rnd sim n (real m) (Suc it) (whileLoop rnd sim n it s)
        = forLoop rnd sim n (real m) it s"
      using lt' by (subst (2) forLoop.simps) simp
    finally show ?thesis .
  next
    case False
    with \<open>it \<le> m\<close> have "it = m" by simp
    then have "forLoop rnd sim n (real m) it s = s"
      by (subst forLoop.simps) simp
    with \<open>it = m\<close> show ?thesis by simp
  qed
qed

lemma forLoop_selected_extends:
  "\<exists>ys. selected (forLoop rnd sim n k it s) = selected s @ ys"
proof (induction rnd sim n k it s rule: forLoop.induct)
  case (1 rnd sim n k it s)
  show ?case
  proof (cases "real it < k")
    case True
    from "1.IH" [OF True] obtain ys where
      "selected (forLoop rnd sim n k (Suc it) (whileLoop rnd sim n it s))
         = selected (whileLoop rnd sim n it s) @ ys" ..
    moreover from whileLoop_selected_cases [of rnd sim n it s]
    obtain zs where "selected (whileLoop rnd sim n it s) = selected s @ zs" by auto
    ultimately show ?thesis
      using True by (subst forLoop.simps) simp
  next
    case False
    then show ?thesis by (subst forLoop.simps) simp
  qed
qed

lemma lazyGreedySelection_take:
  assumes r: "rounding rnd" and mk: "real m \<le> k" and kn: "k < real (length e)"
  shows "take m (lazyGreedySelection rnd e k) = lazyGreedySelection rnd e (real m)"
proof -
  let ?sim = "similarityMatrix rnd e" and ?n = "length e"
  let ?s0 = "initialState rnd ?sim ?n"
  let ?sm = "forLoop rnd ?sim ?n (real m) 0 ?s0"
  from mk kn have mn: "real m < real ?n" by simp
  have k: "lazyGreedySelection rnd e k = selected (forLoop rnd ?sim ?n k 0 ?s0)"
    using kn by (simp add: lazyGreedySelection_def Let_def)
  have m: "lazyGreedySelection rnd e (real m) = selected ?sm"
    using mn by (simp add: lazyGreedySelection_def Let_def)
  have "forLoop rnd ?sim ?n k 0 ?s0 = forLoop rnd ?sim ?n k m ?sm"
    by (rule forLoop_split [OF _ mk]) simp
  with forLoop_selected_extends [of rnd ?sim ?n k m ?sm]
  obtain ys where ext: "selected (forLoop rnd ?sim ?n k 0 ?s0) = selected ?sm @ ys" by auto
  from forLoop_outer_inv [OF r initialState_inv mn]
  have "length (selected ?sm) = m" by (simp add: outer_inv_def)
  then show ?thesis unfolding k m ext by simp
qed

lemma selectionIterations_eq:
  "k < real (length e) \<Longrightarrow> selectionIterations rnd e k = nat \<lceil>k\<rceil>"
  by (simp add: selectionIterations_def Let_def forLoopIterations_eq)

lemma selectionPops_le:
  assumes "rounding rnd"
  shows "selectionPops rnd e k \<le> 2 * length e * nat \<lceil>k\<rceil>"
proof (cases "k < real (length e)")
  case True
  from forLoopPops_le [OF assms initialState_inv True] True show ?thesis
    by (simp add: selectionPops_def Let_def)
next
  case False
  then show ?thesis by (simp add: selectionPops_def Let_def)
qed

section \<open>Bounds of coverage and objective\<close>

text \<open>
  Coverage entries and objective values are never negative; in exact arithmetic they stay
  in the unit interval when the matrix entries do.  The default threshold is a positive
  number below one half under every rounding.
\<close>

lemma updateCoverage_nonneg:
  assumes "nonneg_list cov"
  shows "nonneg_list (updateCoverage n row cov)"
  using assms unfolding nonneg_list_def all_set_conv_all_nth
  by (auto simp add: updateCoverage_nth max_def; force)

lemma coverage_after_nonneg: "nonneg_list (coverage_after sim n sel)"
proof (induction sel rule: rev_induct)
  case Nil
  then show ?case by (simp add: coverage_after_def nonneg_list_def)
next
  case (snoc b sel)
  then show ?case unfolding coverage_after_snoc by (rule updateCoverage_nonneg)
qed

lemma coverageSum_nonneg_aux:
  assumes r: "rounding rnd"
  shows "nonneg_list xs \<Longrightarrow> 0 \<le> a \<Longrightarrow> 0 \<le> fold (\<lambda>val sum. rnd (sum + val)) xs a"
proof (induction xs arbitrary: a)
  case Nil
  then show ?case by simp
next
  case (Cons x xs)
  then have "0 \<le> a + x" by (simp add: nonneg_list_def)
  then have "rnd 0 \<le> rnd (a + x)" using r by (simp add: rounding_def)
  then have "0 \<le> rnd (a + x)" using rounding_0 [OF r] by simp
  with Cons show ?case by (simp add: nonneg_list_def)
qed

lemma coverageSum_nonneg: "rounding rnd \<Longrightarrow> nonneg_list xs \<Longrightarrow> 0 \<le> coverageSum rnd xs"
  unfolding coverageSum_def by (rule coverageSum_nonneg_aux) simp_all

lemma objective_nonneg:
  assumes r: "rounding rnd"
  shows "0 \<le> objective rnd sim n sel"
proof -
  have "0 \<le> coverageSum rnd (coverage_after sim n sel) / real n"
    using coverageSum_nonneg [OF r coverage_after_nonneg] by simp
  then have "rnd 0 \<le> rnd (coverageSum rnd (coverage_after sim n sel) / real n)"
    using r by (simp add: rounding_def)
  then show ?thesis using rounding_0 [OF r] by (simp add: objective_def)
qed

lemma coverageSum_exact: "coverageSum (\<lambda>x. x) xs = sum_list xs"
proof -
  have "fold (\<lambda>val sum. sum + val) xs (a :: real) = a + sum_list xs" for a
    by (induction xs arbitrary: a) simp_all
  then show ?thesis by (simp add: coverageSum_def)
qed

lemma updateCoverage_unit_range:
  assumes "unit_range cov" "\<forall>j<length cov. 0 \<le> row ! j \<and> row ! j \<le> 1"
  shows "unit_range (updateCoverage n row cov)"
  using assms unfolding unit_range_def all_set_conv_all_nth
  by (simp add: updateCoverage_nth max_def)

lemma coverage_after_unit_range:
  assumes "\<forall>i<n. \<forall>j<n. 0 \<le> sim ! i ! j \<and> sim ! i ! j \<le> 1" "set sel \<subseteq> {0..<n}"
  shows "unit_range (coverage_after sim n sel)"
  using assms(2)
proof (induction sel rule: rev_induct)
  case Nil
  then show ?case by (simp add: coverage_after_def unit_range_def)
next
  case (snoc b sel)
  then have "unit_range (coverage_after sim n sel)" "b < n" by simp_all
  with assms(1) show ?case
    unfolding coverage_after_snoc by (intro updateCoverage_unit_range) simp_all
qed

lemma sum_list_unit_range:
  "unit_range xs \<Longrightarrow> 0 \<le> sum_list xs \<and> sum_list xs \<le> real (length xs)"
  by (induction xs) (auto simp add: unit_range_def)

lemma objective_unit_exact:
  assumes "unit_range (coverage_after sim n sel)"
  shows "0 \<le> objective (\<lambda>x. x) sim n sel \<and> objective (\<lambda>x. x) sim n sel \<le> 1"
proof (cases "n = 0")
  case True
  then show ?thesis by (simp add: objective_def)
next
  case False
  with sum_list_unit_range [OF assms] show ?thesis
    by (simp add: objective_def coverageSum_exact)
qed

lemma default_threshold_bounds:
  assumes r: "rounding rnd"
  shows "1 / 128 \<le> default_threshold rnd" and "default_threshold rnd \<le> 1 / 64"
proof -
  have a: "representable64 (1 / 128)"
    unfolding representable64_def by (intro exI [of _ 1] exI [of _ "- 7"]) (simp add: p2_def)
  have b: "representable64 (1 / 64)"
    unfolding representable64_def by (intro exI [of _ 1] exI [of _ "- 6"]) (simp add: p2_def)
  have "rnd (1 / 128) \<le> rnd (1 / 100)" "rnd (1 / 100) \<le> rnd (1 / 64)"
    using r by (simp_all add: rounding_def)
  with rounding_exact [OF r a] rounding_exact [OF r b]
  show "1 / 128 \<le> default_threshold rnd" and "default_threshold rnd \<le> 1 / 64"
    by (simp_all add: default_threshold_def)
qed

section \<open>Runs on concrete inputs\<close>

text \<open>
  The functions are evaluated step by step on the small inputs used below.  These runs only
  involve numbers that every rounding leaves unchanged.
\<close>

lemma upt2: "[0..<2] = [0, 1]" by (simp add: upt_rec)
lemma upt3: "[0..<3] = [0, 1, 2]" by (simp add: upt_rec)
lemma upt4: "[0..<4] = [0, 1, 2, 3]" by (simp add: upt_rec)
lemma replicate2: "replicate 2 x = [x, x]" by (simp add: numeral_2_eq_2)
lemma replicate3: "replicate 3 x = [x, x, x]" by (simp add: numeral_3_eq_3)
lemma replicate4: "replicate 4 x = [x, x, x, x]"
  by (simp add: numeral_Bit0 [of "Num.Bit0 Num.One"] numeral_2_eq_2)

lemmas eval_simps = Let_def updateCoverage_def computeMarginalGainDiversity_def
  upt2 upt3 upt4 replicate2 replicate3 replicate4

lemmas rounding_simps = rounding_0 rounding_1 rounding_numeral rounding_neg_numeral rounding_half

lemma similarityMatrix_identical:
  assumes r: "rounding rnd"
  shows "similarityMatrix rnd [[1, 0], [1, 0], [1, 0]] = [[1, 1, 1], [1, 1, 1], [1, 1, 1]]"
  by (simp add: similarityMatrix_def cosineSimilarity_def upt_rec Let_def rounding_simps [OF r])

lemma scenarioB:
  assumes r: "rounding rnd" and thr: "0 < thr"
  shows "lazyGreedySelectionWithSaturation rnd [[1, 0], [1, 0], [1, 0]] thr
     = \<lparr>res_selected = [0, 1], res_optimalK = 2, res_values = [1, 1]\<rparr>"
proof -
  note rs = rounding_simps [OF r]
  let ?E = "[[1, 0], [1, 0], [1, 0 :: real]]"
  let ?M = "[[1, 1, 1], [1, 1, 1], [1, 1, 1 :: real]]"
  let ?S0 = "\<lparr>selected = [], remaining = {0..<3}, currentCoverage = replicate 3 0,
      pq = [(- 3, 0, 0), (- 3, 0, 1), (- 3, 0, 2)], valuesAcc = [], earlyStopK = None\<rparr>"
  let ?S1 = "\<lparr>selected = [0], remaining = {0..<3} - {0}, currentCoverage = [1, 1, 1],
      pq = [(- 3, 0, 1), (- 3, 0, 2)], valuesAcc = [1], earlyStopK = None\<rparr>"
  let ?S2 = "\<lparr>selected = [0, 1], remaining = {0..<3} - {0} - {1}, currentCoverage = [1, 1, 1],
      pq = [(0, 1, 2)], valuesAcc = [1, 1], earlyStopK = Some 2\<rparr>"
  have n: "length ?E = 3" by simp
  have sim: "similarityMatrix rnd ?E = ?M" by (rule similarityMatrix_identical [OF r])
  have q: "initialQueue rnd 3 (replicate 3 0) ?M = [(- 3, 0, 0), (- 3, 0, 1), (- 3, 0, 2)]"
    by (simp add: initialQueue_def eval_simps rs)
  have w0: "satWhileLoop rnd ?M 3 thr 0 ?S0 = ?S1"
    by (simp add: satWhileLoop.simps eval_simps rs)
  have w1: "satWhileLoop rnd ?M 3 thr (Suc 0) ?S1 = ?S2"
    using thr by (simp add: satWhileLoop.simps eval_simps rs)
  have f1: "satForLoop rnd ?M 3 thr (Suc 0) ?S1 = ?S2"
    by (subst satForLoop.simps, unfold w1 Let_def) simp
  have f0: "satForLoop rnd ?M 3 thr 0 ?S0 = ?S2"
    by (subst satForLoop.simps, unfold w0 f1 Let_def) simp
  show ?thesis
    unfolding lazyGreedySelectionWithSaturation_def Let_def n sim q f0 by simp
qed

lemma scenarioA:
  assumes r: "rounding rnd"
  shows "lazyGreedySelection rnd [[1, 0], [1, 0], [0, 1], [0, 1]] 2 = [0, 2]"
proof -
  note rs = rounding_simps [OF r]
  let ?E = "[[1, 0], [1, 0], [0, 1], [0, 1 :: real]]"
  let ?M = "[[1, 1, 0, 0], [1, 1, 0, 0], [0, 0, 1, 1], [0, 0, 1, 1 :: real]]"
  let ?S0 = "\<lparr>selected = [], remaining = {0..<4}, currentCoverage = replicate 4 0,
      pq = [(- 2, 0, 0), (- 2, 0, 1), (- 2, 0, 2), (- 2, 0, 3)]\<rparr>"
  let ?S1 = "\<lparr>selected = [0], remaining = {0..<4} - {0}, currentCoverage = [1, 1, 0, 0],
      pq = [(- 2, 0, 1), (- 2, 0, 2), (- 2, 0, 3)]\<rparr>"
  let ?S2 = "\<lparr>selected = [0, 2], remaining = {0..<4} - {0} - {2}, currentCoverage = [1, 1, 1, 1],
      pq = [(- 2, 1, 3), (0, 1, 1)]\<rparr>"
  have n: "length ?E = 4" by simp
  have sim: "similarityMatrix rnd ?E = ?M"
    by (simp add: similarityMatrix_def cosineSimilarity_def upt_rec Let_def rs)
  have q: "initialState rnd ?M 4 = ?S0"
    by (simp add: initialState_def initialQueue_def eval_simps rs)
  have w0: "whileLoop rnd ?M 4 0 ?S0 = ?S1"
    by (simp add: whileLoop.simps eval_simps rs)
  have w1: "whileLoop rnd ?M 4 (Suc 0) ?S1 = ?S2"
    by (simp add: whileLoop.simps eval_simps rs)
  have f2: "forLoop rnd ?M 4 2 (Suc (Suc 0)) ?S2 = ?S2"
    by (subst forLoop.simps) simp
  have f1: "forLoop rnd ?M 4 2 (Suc 0) ?S1 = ?S2"
    by (subst forLoop.simps, unfold w1 f2) simp
  have f0: "forLoop rnd ?M 4 2 0 ?S0 = ?S2"
    by (subst forLoop.simps, unfold w0 f1) simp
  show ?thesis
    unfolding lazyGreedySelection_def Let_def n sim q f0 by simp
qed

lemma scenarioA_counts:
  assumes r: "rounding rnd"
  shows "selectionIterations rnd [[1, 0], [1, 0], [0, 1], [0, 1]] 2 = 2"
    and "selectionPops rnd [[1, 0], [1, 0], [0, 1], [0, 1]] 2 = 5"
proof -
  note rs = rounding_simps [OF r]
  let ?E = "[[1, 0], [1, 0], [0, 1], [0, 1 :: real]]"
  let ?M = "[[1, 1, 0, 0], [1, 1, 0, 0], [0, 0, 1, 1], [0, 0, 1, 1 :: real]]"
  let ?S0 = "\<lparr>selected = [], remaining = {0..<4}, currentCoverage = replicate 4 0,
      pq = [(- 2, 0, 0), (- 2, 0, 1), (- 2, 0, 2), (- 2, 0, 3)]\<rparr>"
  let ?S1 = "\<lparr>selected = [0], remaining = {0..<4} - {0}, currentCoverage = [1, 1, 0, 0],
      pq = [(- 2, 0, 1), (- 2, 0, 2), (- 2, 0, 3)]\<rparr>"
  let ?S2 = "\<lparr>selected = [0, 2], remaining = {0..<4} - {0} - {2}, currentCoverage = [1, 1, 1, 1],
      pq = [(- 2, 1, 3), (0, 1, 1)]\<rparr>"
  have n: "length ?E = 4" by simp
  have sim: "similarityMatrix rnd ?E = ?M"
    by (simp add: similarityMatrix_def cosineSimilarity_def upt_rec Let_def rs)
  have q: "initialState rnd ?M 4 = ?S0"
    by (simp add: initialState_def initialQueue_def eval_simps rs)
  have w0: "whileLoop rnd ?M 4 0 ?S0 = ?S1"
    by (simp add: whileLoop.simps eval_simps rs)
  have w1: "whileLoop rnd ?M 4 (Suc 0) ?S1 = ?S2"
    by (simp add: whileLoop.simps eval_simps rs)
  have c0: "whileLoopPops rnd ?M 4 0 ?S0 = 1"
    by (simp add: whileLoopPops.simps eval_simps rs)
  have c1: "whileLoopPops rnd ?M 4 (Suc 0) ?S1 = 4"
    by (simp add: whileLoopPops.simps eval_simps rs)
  have p2': "forLoopPops rnd ?M 4 2 (Suc (Suc 0)) ?S2 = 0"
    by (subst forLoopPops.simps) simp
  have p1: "forLoopPops rnd ?M 4 2 (Suc 0) ?S1 = 4"
    by (subst forLoopPops.simps, unfold w1 c1 p2') simp
  have p0: "forLoopPops rnd ?M 4 2 0 ?S0 = 5"
    by (subst forLoopPops.simps, unfold w0 c0 p1) simp
  show "selectionIterations rnd ?E 2 = 2"
    by (simp add: selectionIterations_eq)
  show "selectionPops rnd ?E 2 = 5"
    unfolding selectionPops_def Let_def n sim q p0 by simp
qed

lemma twoOrthogonal_saturation:
  assumes r: "rounding rnd" and thr: "thr \<le> 1 / 2"
  shows "lazyGreedySelectionWithSaturation rnd [[1, 0], [0, 1]] thr
     = \<lparr>res_selected = [0, 1], res_optimalK = 2, res_values = [1 / 2, 1]\<rparr>"
proof -
  note rs = rounding_simps [OF r]
  let ?E = "[[1, 0], [0, 1 :: real]]"
  let ?M = "[[1, 0], [0, 1 :: real]]"
  let ?S0 = "\<lparr>selected = [], remaining = {0..<2}, currentCoverage = replicate 2 0,
      pq = [(- 1, 0, 0), (- 1, 0, 1)], valuesAcc = [], earlyStopK = None\<rparr>"
  let ?S1 = "\<lparr>selected = [0], remaining = {0..<2} - {0}, currentCoverage = [1, 0],
      pq = [(- 1, 0, 1)], valuesAcc = [1 / 2], earlyStopK = None\<rparr>"
  let ?S2 = "\<lparr>selected = [0, 1], remaining = {0..<2} - {0} - {1}, currentCoverage = [1, 1],
      pq = [], valuesAcc = [1 / 2, 1], earlyStopK = None\<rparr>"
  have n: "length ?E = 2" by simp
  have sim: "similarityMatrix rnd ?E = ?M"
    by (simp add: similarityMatrix_def cosineSimilarity_def upt_rec Let_def rs)
  have q: "initialQueue rnd 2 (replicate 2 0) ?M = [(- 1, 0, 0), (- 1, 0, 1)]"
    by (simp add: initialQueue_def eval_simps rs)
  have w0: "satWhileLoop rnd ?M 2 thr 0 ?S0 = ?S1"
    by (simp add: satWhileLoop.simps eval_simps rs)
  have w1: "satWhileLoop rnd ?M 2 thr (Suc 0) ?S1 = ?S2"
    using thr by (simp add: satWhileLoop.simps eval_simps rs)
  have f2: "satForLoop rnd ?M 2 thr (Suc (Suc 0)) ?S2 = ?S2"
    by (subst satForLoop.simps) simp
  have f1: "satForLoop rnd ?M 2 thr (Suc 0) ?S1 = ?S2"
    by (subst satForLoop.simps, unfold w1 f2 Let_def) simp
  have f0: "satForLoop rnd ?M 2 thr 0 ?S0 = ?S2"
    by (subst satForLoop.simps, unfold w0 f1 Let_def) simp
  show ?thesis
    unfolding lazyGreedySelectionWithSaturation_def Let_def n sim q f0 by simp
qed

lemma identical_vectors_coverage:
  "coverage_after [[1, 1, 1], [1, 1, 1], [1, 1, 1]] 3 [0] = [1, 1, 1]"
  by (simp add: coverage_after_def eval_simps)

lemma identical_vectors_gains:
  assumes r: "rounding rnd"
  shows "computeMarginalGainDiversity rnd (Suc 0) [1, 1, 1] [[1, 1, 1], [1, 1, 1], [1, 1, 1]] = 0"
    "computeMarginalGainDiversity rnd 2 [1, 1, 1] [[1, 1, 1], [1, 1, 1], [1, 1, 1]] = 0"
  by (simp_all add: eval_simps rounding_simps [OF r])

lemma default_threshold_pos: "rounding rnd \<Longrightarrow> 0 < default_threshold rnd"
  using default_threshold_bounds(1) [of rnd] by linarith

lemma default_threshold_le_half: "rounding rnd \<Longrightarrow> default_threshold rnd \<le> 1 / 2"
  using default_threshold_bounds(2) [of rnd] by linarith

section \<open>The self-similarity in binary64\<close>

text \<open>
  Each of the three rounded operations after the loop has a relative error of at most
  \<open>2\<^sup>-\<^sup>5\<^sup>3\<close> when its result is in the normal range.
\<close>

lemma binary64_interval:
  assumes "p2 (- 1022) \<le> x"
  shows "(1 - 1 / 2 ^ 53) * x \<le> binary64 x" and "binary64 x \<le> (1 + 1 / 2 ^ 53) * x"
proof -
  have pos: "0 < x" using assms p2_pos [of "- 1022"] by linarith
  then have "p2 (- 1022) \<le> \<bar>x\<bar>" using assms by simp
  from binary64_error [OF this] pos have "\<bar>binary64 x - x\<bar> \<le> x / 2 ^ 53" by simp
  then have "binary64 x - x \<le> x / 2 ^ 53" and "- (x / 2 ^ 53) \<le> binary64 x - x"
    by linarith+
  then show "(1 - 1 / 2 ^ 53) * x \<le> binary64 x" and "binary64 x \<le> (1 + 1 / 2 ^ 53) * x"
    by (simp_all add: algebra_simps)
qed

lemma cosine_self_binary64_near:
  assumes loop: "cosineLoop binary64 v v (0, 0, 0) = (d, q, q')"
    and lo: "p2 (- 1021) \<le> q"
  shows "\<bar>cosineSimilarity binary64 v v - 1\<bar> \<le> 1 / 2 ^ 50"
proof -
  define \<epsilon> :: real where "\<epsilon> = 1 / 2 ^ 53"
  have eps: "0 < \<epsilon>" "\<epsilon> < 1" by (simp_all add: \<epsilon>_def)
  from cosineLoop_self [OF loop] have dq: "d = q" "q' = q" by simp_all
  have qpos: "0 < q" using lo p2_pos [of "- 1021"] by linarith
  have p1021: "p2 (- 1021) = 2 * p2 (- 1022)" by (simp add: p2_def)
  have p1022: "p2 (- 1022) \<le> 1" by (simp add: p2_def)
  \<comment> \<open>the square root\<close>
  have sq_lo: "p2 (- 1022) \<le> sqrt q"
  proof (cases "q \<le> 1")
    case True
    then have "q * q \<le> q * 1" using qpos by (intro mult_left_mono) simp_all
    then have "q\<^sup>2 \<le> q" by (simp add: power2_eq_square)
    then have "sqrt (q\<^sup>2) \<le> sqrt q" by (rule real_sqrt_le_mono)
    then have "q \<le> sqrt q" using qpos by simp
    with lo p1021 p2_pos [of "- 1022"] show ?thesis by linarith
  next
    case False
    then have "sqrt 1 \<le> sqrt q" by (intro real_sqrt_le_mono) simp
    then have "1 \<le> sqrt q" by simp
    with p1022 show ?thesis by linarith
  qed
  define s where "s = binary64 (sqrt q)"
  have rpos: "0 < sqrt q" using qpos by simp
  have s: "(1 - \<epsilon>) * sqrt q \<le> s" "s \<le> (1 + \<epsilon>) * sqrt q"
    unfolding s_def \<epsilon>_def by (rule binary64_interval [OF sq_lo])+
  have "0 < (1 - \<epsilon>) * sqrt q" using eps rpos by (intro mult_pos_pos) simp_all
  with s(1) have spos: "0 < s" by linarith
  \<comment> \<open>its square\<close>
  have qq: "sqrt q * sqrt q = q" using qpos by simp
  have t_lo: "(1 - \<epsilon>) * (1 - \<epsilon>) * q \<le> s * s"
  proof -
    have "((1 - \<epsilon>) * sqrt q) * ((1 - \<epsilon>) * sqrt q) \<le> s * s"
      using s(1) eps rpos spos by (intro mult_mono) simp_all
    then show ?thesis using qq by (simp add: algebra_simps)
  qed
  have t_hi: "s * s \<le> (1 + \<epsilon>) * (1 + \<epsilon>) * q"
  proof -
    have "s * s \<le> ((1 + \<epsilon>) * sqrt q) * ((1 + \<epsilon>) * sqrt q)"
      using s(2) spos by (intro mult_mono) simp_all
    then show ?thesis using qq by (simp add: algebra_simps)
  qed
  have half: "1 / 2 \<le> (1 - \<epsilon>) * (1 - \<epsilon>)" by (simp add: \<epsilon>_def)
  have "p2 (- 1022) = 1 / 2 * p2 (- 1021)" by (simp add: p2_def)
  also have "\<dots> \<le> (1 - \<epsilon>) * (1 - \<epsilon>) * q"
    using half lo p2_pos [of "- 1021"] by (intro mult_mono) simp_all
  finally have t_norm: "p2 (- 1022) \<le> s * s" using t_lo by linarith
  define p where "p = binary64 (s * s)"
  have p: "(1 - \<epsilon>) * (s * s) \<le> p" "p \<le> (1 + \<epsilon>) * (s * s)"
    unfolding p_def \<epsilon>_def by (rule binary64_interval [OF t_norm])+
  have p_lo: "(1 - \<epsilon>) * ((1 - \<epsilon>) * (1 - \<epsilon>) * q) \<le> p"
  proof -
    have "(1 - \<epsilon>) * ((1 - \<epsilon>) * (1 - \<epsilon>) * q) \<le> (1 - \<epsilon>) * (s * s)"
      using t_lo eps by (intro mult_left_mono) simp_all
    with p(1) show ?thesis by linarith
  qed
  have p_hi: "p \<le> (1 + \<epsilon>) * ((1 + \<epsilon>) * (1 + \<epsilon>) * q)"
  proof -
    have "(1 + \<epsilon>) * (s * s) \<le> (1 + \<epsilon>) * ((1 + \<epsilon>) * (1 + \<epsilon>) * q)"
      using t_hi eps by (intro mult_left_mono) simp_all
    with p(2) show ?thesis by linarith
  qed
  define a where "a = (1 - \<epsilon>) * ((1 - \<epsilon>) * (1 - \<epsilon>))"
  define b where "b = (1 + \<epsilon>) * ((1 + \<epsilon>) * (1 + \<epsilon>))"
  have a: "0 < a" "a * q \<le> p"
    using p_lo by (simp_all add: a_def \<epsilon>_def mult.assoc)
  have b: "0 < b" "p \<le> b * q"
    using p_hi by (simp_all add: b_def \<epsilon>_def mult.assoc)
  have "0 < a * q" using a(1) qpos by (rule mult_pos_pos)
  with a(2) have ppos: "0 < p" by linarith
  \<comment> \<open>the quotient\<close>
  have y_lo: "1 / b \<le> q / p"
    using b ppos qpos by (simp add: field_simps)
  have y_hi: "q / p \<le> 1 / a"
    using a ppos qpos by (simp add: field_simps)
  have "p2 (- 1022) \<le> 1 / b" by (simp add: b_def \<epsilon>_def p2_def)
  with y_lo have y_norm: "p2 (- 1022) \<le> q / p" by linarith
  define r where "r = binary64 (q / p)"
  have r: "(1 - \<epsilon>) * (q / p) \<le> r" "r \<le> (1 + \<epsilon>) * (q / p)"
    unfolding r_def \<epsilon>_def by (rule binary64_interval [OF y_norm])+
  have "(1 - \<epsilon>) * (1 / b) \<le> (1 - \<epsilon>) * (q / p)"
    using y_lo eps by (intro mult_left_mono) simp_all
  with r(1) have r_lo: "(1 - \<epsilon>) / b \<le> r" by simp
  have "(1 + \<epsilon>) * (q / p) \<le> (1 + \<epsilon>) * (1 / a)"
    using y_hi eps by (intro mult_left_mono) simp_all
  with r(2) have r_hi: "r \<le> (1 + \<epsilon>) / a" by simp
  have n_lo: "1 - 1 / 2 ^ 50 \<le> (1 - \<epsilon>) / b" by (simp add: b_def \<epsilon>_def)
  have n_hi: "(1 + \<epsilon>) / a \<le> 1 + 1 / 2 ^ 50" by (simp add: a_def \<epsilon>_def)
  have "cosineSimilarity binary64 v v = r"
    using qpos by (simp add: cosineSimilarity_def loop dq r_def p_def s_def)
  moreover have "1 - 1 / 2 ^ 50 \<le> r" using r_lo n_lo by (rule order_trans [rotated])
  moreover have "r \<le> 1 + 1 / 2 ^ 50" using r_hi n_hi by (rule order_trans)
  ultimately show ?thesis unfolding abs_le_iff by linarith
qed

section \<open>Runs in binary64\<close>

text \<open>
  Runs in which the rounding matters: the self-similarity of \<open>[1, 1]\<close> and of
  \<open>[1, 1, 1]\<close>, a square that underflows, and three vectors for which the rounded sums of
  the marginal gains coincide.
\<close>

lemmas binary64_simps = rounding_simps [OF rounding_binary64]

lemma binary64_sqrt3: "binary64 (sqrt 3) = 3900231685776981 / 2251799813685248"
proof -
  have lo: "(7800463371553962 - 1 / 2) / 4503599627370496 < sqrt 3"
    by (rule real_less_rsqrt) (simp add: power2_eq_square)
  have hi: "sqrt 3 < (7800463371553962 + 1 / 2) / 4503599627370496"
    by (rule real_less_lsqrt) (simp_all add: power2_eq_square)
  have "binary64 (sqrt 3) = of_int 7800463371553962 * p2 (0 - 52)"
  proof (rule binary64_eval)
    show "p2 0 \<le> \<bar>sqrt 3\<bar>" using lo by (simp add: p2_def)
    show "\<bar>sqrt 3\<bar> < p2 (0 + 1)" using hi by (simp add: p2_def)
    have sc: "sqrt 3 / p2 (0 - 52) = sqrt 3 * 4503599627370496"
      by (simp add: p2_def)
    have "7800463371553962 - 1 / 2 < sqrt 3 * 4503599627370496"
      and "sqrt 3 * 4503599627370496 < 7800463371553962 + 1 / 2"
      using lo hi by (simp_all add: field_simps)
    then show "\<bar>sqrt 3 / p2 (0 - 52) - of_int 7800463371553962\<bar> < 1 / 2"
      unfolding sc of_int_numeral by linarith
  qed simp
  then show ?thesis by (simp add: p2_def)
qed

lemma binary64_sqrt3_sq:
  "binary64 (3900231685776981 / 2251799813685248 * (3900231685776981 / 2251799813685248))
     = 6755399441055743 / 2251799813685248"
proof -
  have "binary64 (3900231685776981 / 2251799813685248 * (3900231685776981 / 2251799813685248))
      = of_int 6755399441055743 * p2 (1 - 52)"
    by (rule binary64_eval) (simp_all add: p2_def)
  then show ?thesis by (simp add: p2_def)
qed

lemma binary64_quot3:
  "binary64 (3 / (6755399441055743 / 2251799813685248))
     = 4503599627370497 / 4503599627370496"
proof -
  have "binary64 (3 / (6755399441055743 / 2251799813685248))
      = of_int 4503599627370497 * p2 (0 - 52)"
    by (rule binary64_eval) (simp_all add: p2_def)
  then show ?thesis by (simp add: p2_def)
qed

lemma cosineSimilarity_binary64_11:
  "cosineSimilarity binary64 [1, 1] [1, 1] = 4503599627370495 / 4503599627370496"
proof -
  have loop: "cosineLoop binary64 [1, 1] [1, 1] (0, 0, 0) = (2, 2, 2)"
    by (simp add: binary64_simps)
  have "cosineSimilarity binary64 [1, 1] [1, 1]
      = binary64 (2 / binary64 (binary64 (sqrt 2) * binary64 (sqrt 2)))"
    unfolding cosineSimilarity_def loop by simp
  also have "\<dots> = 4503599627370495 / 4503599627370496"
    unfolding binary64_sqrt2 binary64_sqrt2_sq binary64_quot2 ..
  finally show ?thesis .
qed

lemma cosineSimilarity_binary64_111:
  "cosineSimilarity binary64 [1, 1, 1] [1, 1, 1] = 4503599627370497 / 4503599627370496"
proof -
  have loop: "cosineLoop binary64 [1, 1, 1] [1, 1, 1] (0, 0, 0) = (3, 3, 3)"
    by (simp add: binary64_simps)
  have "cosineSimilarity binary64 [1, 1, 1] [1, 1, 1]
      = binary64 (3 / binary64 (binary64 (sqrt 3) * binary64 (sqrt 3)))"
    unfolding cosineSimilarity_def loop by simp
  also have "\<dots> = 4503599627370497 / 4503599627370496"
    unfolding binary64_sqrt3 binary64_sqrt3_sq binary64_quot3 ..
  finally show ?thesis .
qed

lemma significand_above_one: "\<bar>4503599627370497 :: int\<bar> < 2 ^ 53" by simp
lemma value_above_one: "(4503599627370497 / 4503599627370496 :: real) = of_int 4503599627370497 * p2 (- 52)"
  by (simp add: p2_def)

lemma representable64I:
  "\<bar>m\<bar> < 2 ^ 53 \<Longrightarrow> - 1074 \<le> e \<Longrightarrow> e \<le> 971 \<Longrightarrow> x = of_int m * p2 e \<Longrightarrow> representable64 x"
  unfolding representable64_def by blast

lemma binary64_above_one:
  "binary64 (4503599627370497 / 4503599627370496) = 4503599627370497 / 4503599627370496"
  by (rule binary64_exact, rule representable64I [OF significand_above_one _ _ value_above_one]) simp_all

lemma saturation_binary64_111:
  "lazyGreedySelectionWithSaturation binary64 [[1, 1, 1]] thr
     = \<lparr>res_selected = [0], res_optimalK = 1,
        res_values = [4503599627370497 / 4503599627370496]\<rparr>"
proof -
  let ?c = "4503599627370497 / 4503599627370496 :: real"
  let ?S0 = "\<lparr>selected = [], remaining = {0..<1}, currentCoverage = replicate 1 0,
      pq = [(- ?c, 0, 0)], valuesAcc = [], earlyStopK = None\<rparr>"
  let ?S1 = "\<lparr>selected = [0], remaining = {0..<1} - {0}, currentCoverage = [?c],
      pq = [], valuesAcc = [?c], earlyStopK = None\<rparr>"
  have n: "length [[1, 1, 1 :: real]] = 1" by simp
  have sim: "similarityMatrix binary64 [[1, 1, 1]] = [[?c]]"
    by (simp add: similarityMatrix_def Let_def cosineSimilarity_binary64_111)
  have g: "computeMarginalGainDiversity binary64 0 [0] [[?c]] = ?c"
    by (simp add: computeMarginalGainDiversity_def binary64_above_one)
  have q: "initialQueue binary64 1 (replicate 1 0) [[?c]] = [(- ?c, 0, 0)]"
    unfolding initialQueue_def by (simp add: g)
  have u: "updateCoverage (Suc 0) [?c] [0] = [?c]"
    by (simp add: updateCoverage_def)
  have w0: "satWhileLoop binary64 [[?c]] 1 thr 0 ?S0 = ?S1"
    by (subst satWhileLoop.simps) (simp add: Let_def u binary64_above_one)
  have f1: "satForLoop binary64 [[?c]] 1 thr (Suc 0) ?S1 = ?S1"
    by (subst satForLoop.simps) simp
  have f0: "satForLoop binary64 [[?c]] 1 thr 0 ?S0 = ?S1"
    by (subst satForLoop.simps, unfold w0 f1 Let_def) simp
  show ?thesis
    unfolding lazyGreedySelectionWithSaturation_def Let_def n sim q f0 by simp
qed




lemma binary64_underflow: "binary64 (p2 (- 1200)) = 0"
proof -
  let ?x = "p2 (- 1200)"
  have nz: "?x \<noteq> 0" using p2_pos [of "- 1200"] by linarith
  have "p2 (- 1200 + 1) = p2 (- 1200) * p2 1" by (rule p2_add)
  also have "\<dots> = 2 * p2 (- 1200)" by (simp add: p2_def)
  finally have up: "?x < p2 (- 1200 + 1)" using p2_pos [of "- 1200"] by linarith
  have "\<lfloor>log 2 ?x\<rfloor> = - 1200"
    using _ up by (rule floor_log2_eq) simp
  then have b: "binade ?x = - 1022" by (simp add: binade_def)
  have u: "ulp64 ?x = p2 (- 1074)" by (simp add: ulp64_def b)
  have "?x / p2 (- 1074) = p2 (- 1200 - (- 1074))" by (rule p2_diff [symmetric])
  also have "\<dots> = p2 (- 126)" by simp
  finally have sc: "?x / p2 (- 1074) = p2 (- 126)" .
  have "\<bar>p2 (- 126) - of_int 0\<bar> < 1 / 2" by (simp add: p2_def)
  then have "round_even (p2 (- 126)) = 0" by (rule round_even_unique)
  then show ?thesis unfolding binary64_def u sc using nz by simp
qed

lemma cosineSimilarity_binary64_underflow:
  "cosineSimilarity binary64 [p2 (- 600)] [p2 (- 600)] = 0"
proof -
  have "p2 (- 600 + - 600) = p2 (- 600) * p2 (- 600)" by (rule p2_add)
  then have sq: "p2 (- 600) * p2 (- 600) = p2 (- 1200)" by simp
  have "cosineLoop binary64 [p2 (- 600)] [p2 (- 600)] (0, 0, 0) = (0, 0, 0)"
    unfolding cosineLoop.simps sq binary64_underflow by (simp add: binary64_simps)
  then show ?thesis by (simp add: cosineSimilarity_def)
qed

lemma unit_range_single: "unit_range [x] \<longleftrightarrow> 0 \<le> x \<and> x \<le> 1"
  by (simp add: unit_range_def)

lemma coverage_after_above_one:
  "coverage_after [[4503599627370497 / 4503599627370496]] 1 [0]
     = [4503599627370497 / 4503599627370496]"
  by (simp add: coverage_after_def updateCoverage_def)

lemma normSquared_binary64_11: "normSquared binary64 [1, 1] = 2"
  by (simp add: normSquared_def binary64_simps)

lemma cosine_self_binary64_range:
  assumes "p2 (- 1021) \<le> normSquared binary64 v"
  shows "\<bar>cosineSimilarity binary64 v v - 1\<bar> \<le> 1 / 2 ^ 50"
proof -
  obtain d q q' where loop: "cosineLoop binary64 v v (0, 0, 0) = (d, q, q')"
    by (cases "cosineLoop binary64 v v (0, 0, 0)") auto
  with assms have "p2 (- 1021) \<le> q" by (simp add: normSquared_def)
  with loop show ?thesis by (rule cosine_self_binary64_near)
qed



lemma similarityMatrix_scenarioA:
  assumes r: "rounding rnd"
  shows "similarityMatrix rnd [[1, 0], [1, 0], [0, 1], [0, 1]]
    = [[1, 1, 0, 0], [1, 1, 0, 0], [0, 0, 1, 1], [0, 0, 1, 1]]"
  by (simp add: similarityMatrix_def cosineSimilarity_def upt_rec Let_def rounding_simps [OF r])

lemma scenarioA_gains:
  assumes r: "rounding rnd"
  shows "computeMarginalGainDiversity rnd (Suc 0) [1, 1, 0, 0]
      [[1, 1, 0, 0], [1, 1, 0, 0], [0, 0, 1, 1], [0, 0, 1, 1]] = 0"
    "computeMarginalGainDiversity rnd 2 [1, 1, 0, 0]
      [[1, 1, 0, 0], [1, 1, 0, 0], [0, 0, 1, 1], [0, 0, 1, 1]] = 2"
    "computeMarginalGainDiversity rnd 3 [1, 1, 0, 0]
      [[1, 1, 0, 0], [1, 1, 0, 0], [0, 0, 1, 1], [0, 0, 1, 1]] = 2"
  by (simp_all add: eval_simps rounding_simps [OF r])

lemma scenarioA_coverage:
  "coverage_after [[1, 1, 0, 0], [1, 1, 0, 0], [0, 0, 1, 1], [0, 0, 1, 1]] 4 [0] = [1, 1, 0, 0]"
  by (simp add: coverage_after_def eval_simps)

lemma scenarioA_all:
  "lazyGreedySelection rnd [[1, 0], [1, 0], [0, 1], [0, 1]] 4 = [0, 1, 2, 3]"
  by (simp add: lazyGreedySelection_def upt_rec)

lemma scenarioA_index_order_not_greedy:
  assumes r: "rounding rnd"
  shows "\<not> greedy_seq rnd [[1, 1, 0, 0], [1, 1, 0, 0], [0, 0, 1, 1], [0, 0, 1, 1]] 4 [0, 1, 2, 3]"
proof
  assume g: "greedy_seq rnd [[1, 1, 0, 0], [1, 1, 0, 0], [0, 0, 1, 1], [0, 0, 1, 1]] 4 [0, 1, 2, 3]"
  have t: "(1 :: nat) \<in> {0..<length [0, 1, 2, 3 :: nat]}"
    and j: "(2 :: nat) \<in> {0..<4} - set (take 1 [0, 1, 2, 3])" by simp_all
  from g [unfolded greedy_seq_def, rule_format, OF t j]
  show False by (simp add: scenarioA_coverage scenarioA_gains [OF r])
qed

section \<open>Lazy evaluation selects greedily\<close>



section \<open>The saturation stopping rule\<close>

text \<open>
  C2.  For every rounding of the arithmetic and a non-empty input,
  \<open>lazyGreedySelectionWithSaturation\<close> returns \<open>optimalK\<close> between 1 and \<open>n\<close>; the
  selection and the trajectory both have length \<open>optimalK\<close>, the trajectory holds the
  objective after each accepted item, every delta before \<open>optimalK\<close> is at least the
  threshold, and either \<open>optimalK \<ge> 2\<close> is the first acceptance whose delta is below the
  threshold, or no delta is below the threshold and \<open>optimalK = n\<close>, the number of values
  collected.  The deltas are the rounded differences the source computes.
\<close>

theorem saturation_stopping_rule:
  fixes rnd :: "real \<Rightarrow> real" and e :: "real list list" and thr :: real
  defines "r \<equiv> lazyGreedySelectionWithSaturation rnd e thr"
  assumes "rounding rnd" and "e \<noteq> []"
  shows "1 \<le> res_optimalK r \<and> res_optimalK r \<le> length e
    \<and> length (res_selected r) = res_optimalK r
    \<and> length (res_values r) = res_optimalK r
    \<and> res_values r = trajectory rnd (similarityMatrix rnd e) (length e) (res_selected r)
    \<and> (\<forall>t\<in>{2..<res_optimalK r}. thr \<le> delta rnd (res_values r) t)
    \<and> (2 \<le> res_optimalK r \<and> delta rnd (res_values r) (res_optimalK r) < thr
        \<or> res_optimalK r = length e \<and> (\<forall>t\<in>{2..length e}. thr \<le> delta rnd (res_values r) t))"
proof -
  have ok: "sat_result_ok rnd e thr r"
    unfolding r_def by (rule saturation_result_ok [OF \<open>rounding rnd\<close>])
  let ?K = "res_optimalK r"
  from ok have len: "length (res_selected r) = ?K" and Kn: "?K \<le> length e"
    and vs: "res_values r = trajectory rnd (similarityMatrix rnd e) (length e) (res_selected r)"
    and ds: "\<forall>t\<in>{2..<?K}. thr \<le> delta rnd (res_values r) t"
    and stop: "2 \<le> ?K \<and> delta rnd (res_values r) ?K < thr
        \<or> ?K = length e \<and> (2 \<le> length e \<longrightarrow> thr \<le> delta rnd (res_values r) (length e))"
    unfolding sat_result_ok_def Let_def by blast+
  have lv: "length (res_values r) = ?K" using vs len by simp
  from stop \<open>e \<noteq> []\<close> have K1: "1 \<le> ?K"
    by (cases e) auto
  from stop ds have stop': "2 \<le> ?K \<and> delta rnd (res_values r) ?K < thr
        \<or> ?K = length e \<and> (\<forall>t\<in>{2..length e}. thr \<le> delta rnd (res_values r) t)"
    by (auto simp add: le_less)
  from K1 Kn len lv vs ds stop' show ?thesis by blast
qed

theorem saturation_stopping_rule_witness:
  "rounding binary64 \<and> [[1, 0], [0, 1 :: real]] \<noteq> [] \<and>
   res_optimalK (lazyGreedySelectionWithSaturation binary64 [[1, 0], [0, 1]]
       (default_threshold binary64)) = 2 \<and>
   res_selected (lazyGreedySelectionWithSaturation binary64 [[1, 0], [0, 1]]
       (default_threshold binary64)) = [0, 1] \<and>
   res_values (lazyGreedySelectionWithSaturation binary64 [[1, 0], [0, 1]]
       (default_threshold binary64)) = [1 / 2, 1] \<and>
   [1 / 2, 1] = trajectory binary64 (similarityMatrix binary64 [[1, 0], [0, 1]])
       (length [[1, 0], [0, 1 :: real]]) [0, 1] \<and>
   (2 :: nat) \<in> {2..length [[1, 0], [0, 1 :: real]]} \<and>
   delta binary64 [1 / 2, 1] 2 = 1 / 2 \<and>
   default_threshold binary64 \<le> delta binary64 [1 / 2, 1] 2"
proof -
  let ?E = "[[1, 0], [0, 1 :: real]]"
  let ?thr = "default_threshold binary64"
  let ?r = "lazyGreedySelectionWithSaturation binary64 ?E ?thr"
  note r = rounding_binary64
  note two = twoOrthogonal_saturation [OF r default_threshold_le_half [OF r]]
  have ne: "?E \<noteq> []" by simp
  have k: "res_optimalK ?r = 2" and sel: "res_selected ?r = [0, 1]"
    and vals: "res_values ?r = [1 / 2, 1]" by (simp_all add: two)
  have dv: "delta binary64 [1 / 2, 1] 2 = 1 / 2"
    by (simp add: delta_def binary64_simps)
  have d: "\<not> delta binary64 [1 / 2, 1] 2 < ?thr"
    using default_threshold_le_half [OF r] by (simp add: dv)
  have t: "(2 :: nat) \<in> {2..length ?E}" by simp
  from saturation_stopping_rule [where rnd = binary64 and e = ?E and thr = ?thr, OF r ne]
  have "res_values ?r = trajectory binary64 (similarityMatrix binary64 ?E) (length ?E)
          (res_selected ?r)"
    and "2 \<le> res_optimalK ?r \<and> delta binary64 (res_values ?r) (res_optimalK ?r) < ?thr
        \<or> res_optimalK ?r = length ?E
          \<and> (\<forall>t\<in>{2..length ?E}. ?thr \<le> delta binary64 (res_values ?r) t)"
    by blast+
  then have tr: "[1 / 2, 1] = trajectory binary64 (similarityMatrix binary64 ?E) (length ?E) [0, 1]"
    and all: "\<forall>t\<in>{2..length ?E}. ?thr \<le> delta binary64 [1 / 2, 1] t"
    unfolding k sel vals using d by blast+
  from all t have le: "?thr \<le> delta binary64 [1 / 2, 1] 2" by blast
  show ?thesis
    by (intro conjI; fact r ne k sel vals tr t dv le)
qed

section \<open>Three identical vectors\<close>

text \<open>
  C3, as stated: for the embeddings \<open>[[1,0],[1,0],[1,0]]\<close> and the default threshold the
  saturation variant returns \<open>optimalK = 1\<close>.  The code returns 2: the saturation test
  is only made from the second acceptance on, so the item whose delta is below the threshold
  is itself counted.
\<close>

theorem identical_vectors_optimalK_counterexample:
  "res_optimalK (lazyGreedySelectionWithSaturation binary64 [[1, 0], [1, 0], [1, 0]]
      (default_threshold binary64)) \<noteq> 1"
  by (simp add: scenarioB [OF rounding_binary64 default_threshold_pos [OF rounding_binary64]])

text \<open>
  C3, amended.  For the embeddings \<open>[[1,0],[1,0],[1,0]]\<close> and the default threshold, under
  every rounding of the arithmetic, the objective after the first selection is 1, each of
  the two other items then has marginal gain 0, and the saturation variant returns
  \<open>optimalK = 2\<close> with the selection \<open>[0, 1]\<close> and the trajectory \<open>[1, 1]\<close>.
\<close>

theorem identical_vectors_saturation:
  assumes "rounding rnd"
  shows "res_values (lazyGreedySelectionWithSaturation rnd [[1, 0], [1, 0], [1, 0]]
              (default_threshold rnd)) ! 0 = 1
   \<and> computeMarginalGainDiversity rnd 1
        (coverage_after (similarityMatrix rnd [[1, 0], [1, 0], [1, 0]]) 3 [0])
        (similarityMatrix rnd [[1, 0], [1, 0], [1, 0]]) = 0
   \<and> computeMarginalGainDiversity rnd 2
        (coverage_after (similarityMatrix rnd [[1, 0], [1, 0], [1, 0]]) 3 [0])
        (similarityMatrix rnd [[1, 0], [1, 0], [1, 0]]) = 0
   \<and> lazyGreedySelectionWithSaturation rnd [[1, 0], [1, 0], [1, 0]] (default_threshold rnd)
       = \<lparr>res_selected = [0, 1], res_optimalK = 2, res_values = [1, 1]\<rparr>"
  using identical_vectors_gains [OF assms]
  by (simp add: scenarioB [OF assms default_threshold_pos [OF assms]]
      similarityMatrix_identical [OF assms] identical_vectors_coverage)

theorem identical_vectors_saturation_witness:
  "rounding binary64
   \<and> lazyGreedySelectionWithSaturation binary64 [[1, 0], [1, 0], [1, 0]]
        (default_threshold binary64)
       = \<lparr>res_selected = [0, 1], res_optimalK = 2, res_values = [1, 1]\<rparr>"
  using identical_vectors_saturation [OF rounding_binary64] rounding_binary64 by blast

section \<open>Requests with an invalid k\<close>

text \<open>
  C4, as stated: fixed-K selection rejects every \<open>k \<le> 0\<close> and every \<open>k > n\<close>.
  \<open>lazyGreedySelection\<close> has no failing path, so its result is a plain list: for one
  embedding it returns the whole selection when \<open>k = 2\<close> and the empty selection when
  \<open>k = 0\<close>.
\<close>

theorem invalid_k_selection_counterexample:
  "lazyGreedySelection binary64 [[1, 0]] 2 = [0] \<and> lazyGreedySelection binary64 [[1, 0]] 0 = []"
proof
  show "lazyGreedySelection binary64 [[1, 0]] 2 = [0]"
    by (simp add: lazyGreedySelection_def)
  show "lazyGreedySelection binary64 [[1, 0]] 0 = []"
    by (rule lazyGreedySelection_nonpos) simp_all
qed

text \<open>
  C4, amended.  The rejection is made by the caller: for a non-empty array of \<open>n\<close> strings
  and a given \<open>k\<close> with \<open>k \<le> 0\<close> or \<open>k > n\<close>, the handler of deduplicate\_strings
  rejects the request with its invalid-k error before any selection.  \<open>lazyGreedySelection\<close>
  itself does not validate \<open>k\<close>: with \<open>k \<ge> n\<close> it returns all \<open>n\<close> indices, and with
  \<open>k \<le> 0\<close> and a non-empty input the empty list.
\<close>

theorem invalid_k_rejected_by_handler:
  assumes "strings \<noteq> []" and "k \<le> 0 \<or> real (length strings) < k"
  shows "deduplicate_strings rnd True strings (Some k) embeddings
        = Inl (InvalidK k (length strings))
    \<and> (real (length e) \<le> k' \<longrightarrow> lazyGreedySelection rnd e k' = [0..<length e])
    \<and> (k' \<le> 0 \<and> e \<noteq> [] \<longrightarrow> lazyGreedySelection rnd e k' = [])"
proof -
  have "deduplicate_strings rnd True strings (Some k) embeddings
      = Inl (InvalidK k (length strings))"
    using assms by (auto simp add: deduplicate_strings_def)
  moreover have "real (length e) \<le> k' \<longrightarrow> lazyGreedySelection rnd e k' = [0..<length e]"
    by (simp add: lazyGreedySelection_def)
  moreover have "k' \<le> 0 \<and> e \<noteq> [] \<longrightarrow> lazyGreedySelection rnd e k' = []"
  proof (intro impI, elim conjE)
    assume k': "k' \<le> 0" and "e \<noteq> []"
    then have "k' < real (length e)" by (cases e) auto
    with k' show "lazyGreedySelection rnd e k' = []" by (rule lazyGreedySelection_nonpos)
  qed
  ultimately show ?thesis by blast
qed

theorem invalid_k_rejected_by_handler_witness:
  "[''a'', ''b''] \<noteq> [] \<and> ((3 :: real) \<le> 0 \<or> real (length [''a'', ''b'']) < 3)
    \<and> deduplicate_strings binary64 True [''a'', ''b''] (Some 3) [[1, 0], [0, 1]]
        = Inl (InvalidK 3 2)
    \<and> real (length [[1, 0 :: real]]) \<le> 2 \<and> lazyGreedySelection binary64 [[1, 0]] 2 = [0]
    \<and> (0 :: real) \<le> 0 \<and> [[1, 0 :: real]] \<noteq> [] \<and> lazyGreedySelection binary64 [[1, 0]] 0 = []"
proof -
  have a: "[''a'', ''b''] \<noteq> []"
    and b: "(3 :: real) \<le> 0 \<or> real (length [''a'', ''b'']) < 3" by simp_all
  from invalid_k_rejected_by_handler [OF a b, where rnd = binary64
      and embeddings = "[[1, 0], [0, 1]]" and e = "[[1, 0]]" and k' = 2]
    invalid_k_rejected_by_handler [OF a b, where rnd = binary64
      and embeddings = "[[1, 0], [0, 1]]" and e = "[[1, 0]]" and k' = 0]
  show ?thesis by simp
qed

section \<open>Full selection\<close>

text \<open>
  C5.  With at least as many requested items as embeddings, \<open>lazyGreedySelection\<close> returns
  every index \<open>0, \<dots>, n - 1\<close> exactly once and in ascending order, without running the
  greedy loop.
\<close>

theorem lazyGreedySelection_full:
  assumes "real (length embeddings) \<le> k"
  shows "lazyGreedySelection rnd embeddings k = [0..<length embeddings]
    \<and> distinct (lazyGreedySelection rnd embeddings k)
    \<and> sorted (lazyGreedySelection rnd embeddings k)
    \<and> set (lazyGreedySelection rnd embeddings k) = {0..<length embeddings}"
  using assms by (simp add: lazyGreedySelection_def)

theorem lazyGreedySelection_full_witness:
  "real (length [[1, 0], [0, 1 :: real]]) \<le> 2
    \<and> lazyGreedySelection binary64 [[1, 0], [0, 1]] 2 = [0, 1]"
  using lazyGreedySelection_full [where rnd = binary64 and embeddings = "[[1, 0], [0, 1]]"
      and k = 2]
  by (simp add: upt_rec)

section \<open>Requests with no input\<close>

text \<open>
  C6, as stated: fixed-K selection applied to an empty sequence of embeddings signals an
  error.  \<open>lazyGreedySelection\<close> returns the empty selection instead.
\<close>

theorem empty_input_selection_counterexample:
  "lazyGreedySelection binary64 [] 1 = []"
  by (simp add: lazyGreedySelection_def)

text \<open>
  C6, amended.  The rejection is made by the caller: the handler of deduplicate\_strings
  rejects an empty array of strings with its no-strings error, whether \<open>k\<close> is given or
  not and whatever its value.  \<open>lazyGreedySelection\<close> itself returns the empty selection
  for an empty sequence of embeddings, for every \<open>k\<close>.
\<close>

theorem empty_input_rejected_by_handler:
  "deduplicate_strings rnd True [] k embeddings = Inl NoStringsProvided
    \<and> lazyGreedySelection rnd [] k' = []"
  by (simp add: deduplicate_strings_def lazyGreedySelection_Nil)

theorem empty_input_rejected_by_handler_witness:
  "deduplicate_strings binary64 True [] (Some 1) [] = Inl NoStringsProvided
    \<and> deduplicate_strings binary64 True [] None [] = Inl NoStringsProvided
    \<and> lazyGreedySelection binary64 [] (- 1) = []"
  using empty_input_rejected_by_handler [where rnd = binary64 and k = "Some 1"
      and embeddings = "[]" and k' = "- 1"]
    empty_input_rejected_by_handler [where rnd = binary64 and k = None
      and embeddings = "[]" and k' = "- 1"]
  by simp

section \<open>Termination and cardinality\<close>

text \<open>
  C7, as stated: for every \<open>k\<close> with \<open>1 \<le> k \<le> n\<close> the result lists the indices in
  selection order.  With \<open>k = n\<close> the function returns the indices in ascending order
  without selecting: for the embeddings \<open>[[1,0],[1,0],[0,1],[0,1]]\<close> the loop accepts item 0
  and then item 2, as the result for \<open>k = 2\<close> shows, while the result for \<open>k = 4\<close> is
  \<open>[0, 1, 2, 3]\<close>, whose second item has marginal gain 0 where item 2 has marginal gain 2.
\<close>

theorem selection_order_counterexample:
  "lazyGreedySelection binary64 [[1, 0], [1, 0], [0, 1], [0, 1]] 4 = [0, 1, 2, 3]
   \<and> lazyGreedySelection binary64 [[1, 0], [1, 0], [0, 1], [0, 1]] 2 = [0, 2]
   \<and> \<not> greedy_seq binary64 (similarityMatrix binary64 [[1, 0], [1, 0], [0, 1], [0, 1]]) 4
         (lazyGreedySelection binary64 [[1, 0], [1, 0], [0, 1], [0, 1]] 4)"
  using scenarioA_index_order_not_greedy [OF rounding_binary64]
  by (simp add: scenarioA_all scenarioA [OF rounding_binary64]
      similarityMatrix_scenarioA [OF rounding_binary64])

text \<open>
  C7, amended.  \<open>whileLoop\<close> and \<open>forLoop\<close> are total functions: the inner loop
  terminates on every state because \<open>staleCount\<close> decreases with every pop that does not
  accept, the outer loop because its counter approaches \<open>k\<close>.  For every rounding of the
  arithmetic, \<open>n\<close> embeddings and an integer \<open>k\<close> with \<open>1 \<le> k \<le> n\<close>,
  \<open>lazyGreedySelection\<close> returns exactly \<open>k\<close> pairwise distinct indices, each below
  \<open>n\<close>, after at most \<open>n\<close> iterations of the outer loop and at most \<open>2 n k\<close> pops of
  the queue.  For \<open>k < n\<close> the outer loop makes exactly \<open>k\<close> iterations and the result is
  in selection order: its first \<open>m + 1\<close> items are the result for \<open>m + 1\<close>, which is the
  result for \<open>m\<close> followed by the item accepted next, and each item is a greedy choice.
  For \<open>k = n\<close> no loop runs and the result is in ascending index order.
\<close>

theorem lazyGreedySelection_terminates_with_k:
  fixes rnd :: "real \<Rightarrow> real" and e :: "real list list" and k :: nat
  defines "sel \<equiv> lazyGreedySelection rnd e (real k)"
  assumes rnd: "rounding rnd" and k1: "1 \<le> k" and kn: "k \<le> length e"
  shows "length sel = k \<and> distinct sel \<and> set sel \<subseteq> {0..<length e}
    \<and> selectionIterations rnd e (real k) \<le> length e
    \<and> selectionPops rnd e (real k) \<le> 2 * length e * k
    \<and> (k < length e \<longrightarrow>
          selectionIterations rnd e (real k) = k
        \<and> (\<forall>m<k. lazyGreedySelection rnd e (real (Suc m))
                    = lazyGreedySelection rnd e (real m) @ [sel ! m])
        \<and> greedy_seq rnd (similarityMatrix rnd e) (length e) sel)
    \<and> (k = length e \<longrightarrow>
          sel = [0..<length e] \<and> selectionIterations rnd e (real k) = 0
        \<and> selectionPops rnd e (real k) = 0)"
proof (cases "k = length e")
  case True
  then show ?thesis
    by (simp add: sel_def lazyGreedySelection_def selectionIterations_def selectionPops_def)
next
  case False
  with kn have lt: "real k < real (length e)" by simp
  note f = lazyGreedySelection_facts [OF rnd lt, folded sel_def]
  have len: "length sel = k" using f(1) by simp
  have it: "selectionIterations rnd e (real k) = k"
    using selectionIterations_eq [OF lt, of rnd] by simp
  have pops: "selectionPops rnd e (real k) \<le> 2 * length e * k"
    using selectionPops_le [OF rnd, of e "real k"] by simp
  have step: "lazyGreedySelection rnd e (real (Suc m))
      = lazyGreedySelection rnd e (real m) @ [sel ! m]" if m: "m < k" for m
  proof -
    from m have a: "real (Suc m) \<le> real k" and b: "real m \<le> real k" by simp_all
    have "lazyGreedySelection rnd e (real (Suc m)) = take (Suc m) sel"
      unfolding sel_def using lazyGreedySelection_take [OF rnd a lt] by simp
    also have "\<dots> = take m sel @ [sel ! m]"
      using m len by (simp add: take_Suc_conv_app_nth)
    also have "take m sel = lazyGreedySelection rnd e (real m)"
      unfolding sel_def by (rule lazyGreedySelection_take [OF rnd b lt])
    finally show ?thesis .
  qed
  from False kn len f(2,3,4) it pops step show ?thesis by auto
qed

theorem lazyGreedySelection_terminates_with_k_witness:
  "rounding binary64
   \<and> (1 :: nat) \<le> 2 \<and> (2 :: nat) \<le> length [[1, 0], [1, 0], [0, 1], [0, 1 :: real]]
   \<and> (2 :: nat) < length [[1, 0], [1, 0], [0, 1], [0, 1 :: real]]
   \<and> lazyGreedySelection binary64 [[1, 0], [1, 0], [0, 1], [0, 1]] (real (2 :: nat)) = [0, 2]
   \<and> selectionIterations binary64 [[1, 0], [1, 0], [0, 1], [0, 1]] (real (2 :: nat)) = 2
   \<and> selectionPops binary64 [[1, 0], [1, 0], [0, 1], [0, 1]] (real (2 :: nat)) = 5
   \<and> (1 :: nat) < 2
   \<and> lazyGreedySelection binary64 [[1, 0], [1, 0], [0, 1], [0, 1]] (real (Suc 1))
       = lazyGreedySelection binary64 [[1, 0], [1, 0], [0, 1], [0, 1]] (real (1 :: nat)) @ [2]
   \<and> (1 :: nat) \<in> {0..<length [0, 2 :: nat]} \<and> (3 :: nat) \<in> {0..<4} - set (take 1 [0, 2])
   \<and> computeMarginalGainDiversity binary64 3
        (coverage_after (similarityMatrix binary64 [[1, 0], [1, 0], [0, 1], [0, 1]]) 4
           (take 1 [0, 2]))
        (similarityMatrix binary64 [[1, 0], [1, 0], [0, 1], [0, 1]])
     \<le> computeMarginalGainDiversity binary64 ([0, 2] ! 1)
        (coverage_after (similarityMatrix binary64 [[1, 0], [1, 0], [0, 1], [0, 1]]) 4
           (take 1 [0, 2]))
        (similarityMatrix binary64 [[1, 0], [1, 0], [0, 1], [0, 1]])
   \<and> (4 :: nat) = length [[1, 0], [1, 0], [0, 1], [0, 1 :: real]]
   \<and> lazyGreedySelection binary64 [[1, 0], [1, 0], [0, 1], [0, 1]] (real (4 :: nat))
       = [0..<length [[1, 0], [1, 0], [0, 1], [0, 1 :: real]]]
   \<and> selectionIterations binary64 [[1, 0], [1, 0], [0, 1], [0, 1]] (real (4 :: nat)) = 0"
proof -
  let ?A = "[[1, 0], [1, 0], [0, 1], [0, 1 :: real]]"
  note r = rounding_binary64
  have k1: "(1 :: nat) \<le> 2" and kn: "(2 :: nat) \<le> length ?A" and lt: "(2 :: nat) < length ?A"
    and n4: "length ?A = 4" by simp_all
  have sel: "lazyGreedySelection binary64 ?A (real (2 :: nat)) = [0, 2]"
    using scenarioA [OF r] by simp
  have its: "selectionIterations binary64 ?A (real (2 :: nat)) = 2"
    and pops: "selectionPops binary64 ?A (real (2 :: nat)) = 5"
    using scenarioA_counts [OF r] by simp_all
  note inst = lazyGreedySelection_terminates_with_k [where rnd = binary64 and e = ?A and k = 2,
      OF r k1 kn]
  from inst lt have step: "\<forall>m<2. lazyGreedySelection binary64 ?A (real (Suc m))
        = lazyGreedySelection binary64 ?A (real m) @ [lazyGreedySelection binary64 ?A (real (2 :: nat)) ! m]"
    and g: "greedy_seq binary64 (similarityMatrix binary64 ?A) (length ?A)
        (lazyGreedySelection binary64 ?A (real (2 :: nat)))"
    by blast+
  have m: "(1 :: nat) < 2" by simp
  from step m have step1: "lazyGreedySelection binary64 ?A (real (Suc 1))
      = lazyGreedySelection binary64 ?A (real (1 :: nat)) @ [2]"
    unfolding sel by fastforce
  have t: "(1 :: nat) \<in> {0..<length [0, 2 :: nat]}"
    and j: "(3 :: nat) \<in> {0..<4} - set (take 1 [0, 2])" by simp_all
  note g1 = g [unfolded sel n4 greedy_seq_def, rule_format, OF t j]
  have k1': "(1 :: nat) \<le> 4" and kn': "(4 :: nat) \<le> length ?A"
    and eq: "(4 :: nat) = length ?A" by simp_all
  note inst' = lazyGreedySelection_terminates_with_k [where rnd = binary64 and e = ?A and k = 4,
      OF r k1' kn']
  from inst' eq have all: "lazyGreedySelection binary64 ?A (real (4 :: nat)) = [0..<length ?A]"
    and its0: "selectionIterations binary64 ?A (real (4 :: nat)) = 0"
    by blast+
  show ?thesis
    by (intro conjI; fact r k1 kn lt sel its pops m step1 t j g1 eq all its0)
qed

section \<open>Monotone coverage\<close>

text \<open>
  C8.  In both selection functions one run of the inner loop, hence every acceptance, leaves
  each coverage entry at least as large as it was, and, for every rounding of the
  arithmetic (binary64 and exact arithmetic among them), the trajectory returned by
  \<open>lazyGreedySelectionWithSaturation\<close> is non-decreasing.
\<close>

theorem coverage_monotone:
  "(\<forall>j<length (currentCoverage s).
       currentCoverage s ! j \<le> currentCoverage (whileLoop rnd sim n it s) ! j)
   \<and> (\<forall>j<length (currentCoverage s').
       currentCoverage s' ! j \<le> currentCoverage (satWhileLoop rnd sim n thr it s') ! j)
   \<and> (rounding rnd \<longrightarrow> sorted (res_values (lazyGreedySelectionWithSaturation rnd e thr')))"
proof -
  have "\<forall>j<length (currentCoverage s).
       currentCoverage s ! j \<le> currentCoverage (whileLoop rnd sim n it s) ! j"
    using whileLoop_coverage_cases [of rnd sim n it s] by (auto simp add: updateCoverage_mono)
  moreover have "\<forall>j<length (currentCoverage s').
       currentCoverage s' ! j \<le> currentCoverage (satWhileLoop rnd sim n thr it s') ! j"
    using satWhileLoop_coverage_cases [of rnd sim n thr it s']
    by (auto simp add: updateCoverage_mono)
  moreover have "sorted (res_values (lazyGreedySelectionWithSaturation rnd e thr'))"
    if r: "rounding rnd"
    using saturation_result_ok [OF r, of e thr']
    by (simp add: sat_result_ok_def Let_def trajectory_sorted [OF r])
  ultimately show ?thesis by blast
qed

theorem coverage_monotone_witness:
  "rounding binary64
   \<and> (0 :: nat) < length [0, 0 :: real]
   \<and> currentCoverage (whileLoop binary64 [[1, 0], [0, 1]] 2 0
        \<lparr>selected = [], remaining = {0..<2}, currentCoverage = [0, 0],
         pq = [(- 1, 0, 0), (- 1, 0, 1)]\<rparr>) = [1, 0]
   \<and> [0, 0 :: real] ! 0 \<le> [1, 0] ! 0
   \<and> currentCoverage (satWhileLoop binary64 [[1, 0], [0, 1]] 2 (1 / 4) 0
        \<lparr>selected = [], remaining = {0..<2}, currentCoverage = [0, 0],
         pq = [(- 1, 0, 0), (- 1, 0, 1)], valuesAcc = [], earlyStopK = None\<rparr>) = [1, 0]
   \<and> res_values (lazyGreedySelectionWithSaturation binary64 [[1, 0], [0, 1]]
        (default_threshold binary64)) = [1 / 2, 1]
   \<and> sorted [1 / 2, 1 :: real]"
proof -
  let ?M = "[[1, 0], [0, 1 :: real]]"
  let ?s = "\<lparr>selected = [], remaining = {0..<2}, currentCoverage = [0, 0 :: real],
      pq = [(- 1, 0, 0), (- 1, 0, 1)]\<rparr>"
  let ?s' = "\<lparr>selected = [], remaining = {0..<2}, currentCoverage = [0, 0 :: real],
      pq = [(- 1, 0, 0), (- 1, 0, 1)], valuesAcc = [], earlyStopK = None\<rparr>"
  let ?thr = "default_threshold binary64"
  note r = rounding_binary64
  note two = twoOrthogonal_saturation [OF r default_threshold_le_half [OF r]]
  have w: "currentCoverage (whileLoop binary64 ?M 2 0 ?s) = [1, 0]"
    by (simp add: whileLoop.simps eval_simps binary64_simps)
  have w': "currentCoverage (satWhileLoop binary64 ?M 2 (1 / 4) 0 ?s') = [1, 0]"
    by (simp add: satWhileLoop.simps eval_simps binary64_simps)
  have vals: "res_values (lazyGreedySelectionWithSaturation binary64 ?M ?thr) = [1 / 2, 1]"
    by (simp add: two)
  have j: "(0 :: nat) < length [0, 0 :: real]" by simp
  have j0: "(0 :: nat) < length (currentCoverage ?s)"
    and j1: "(0 :: nat) < length (currentCoverage ?s')" by simp_all
  from coverage_monotone [where rnd = binary64 and s = ?s and s' = ?s' and sim = ?M and n = 2
      and it = 0 and thr = "1 / 4" and e = ?M and thr' = ?thr]
  have a: "\<forall>j<length (currentCoverage ?s).
       currentCoverage ?s ! j \<le> currentCoverage (whileLoop binary64 ?M 2 0 ?s) ! j"
    and b: "\<forall>j<length (currentCoverage ?s').
       currentCoverage ?s' ! j \<le> currentCoverage (satWhileLoop binary64 ?M 2 (1 / 4) 0 ?s') ! j"
    and c: "rounding binary64
       \<longrightarrow> sorted (res_values (lazyGreedySelectionWithSaturation binary64 ?M ?thr))"
    by blast+
  from a j0 have "currentCoverage ?s ! 0 \<le> currentCoverage (whileLoop binary64 ?M 2 0 ?s) ! 0"
    by blast
  then have a': "[0, 0 :: real] ! 0 \<le> [1, 0] ! 0" unfolding w by simp
  from c r have c': "sorted [1 / 2, 1 :: real]" unfolding vals by blast
  show ?thesis
    by (intro conjI; fact r j w a' w' vals c')
qed

section \<open>Self-similarity\<close>

text \<open>
  C9, as stated: the clamped cosine similarity of every non-zero vector with itself equals 1.
  In binary64 the square root of the squared norm is rounded, and so are the product of the
  two roots and the quotient: for the vector \<open>[1, 1]\<close> the function returns
  \<open>1 - 2\<^sup>-\<^sup>5\<^sup>2\<close>, which the clamp leaves unchanged and which is the diagonal entry of the
  similarity matrix; for the non-zero vector \<open>[2\<^sup>-\<^sup>6\<^sup>0\<^sup>0]\<close> the square underflows to 0 and
  the function returns 0.
\<close>

theorem self_similarity_binary64_counterexample:
  "cosineSimilarity binary64 [1, 1] [1, 1] = 4503599627370495 / 4503599627370496
   \<and> cosineSimilarity binary64 [1, 1] [1, 1] \<noteq> 1
   \<and> (if cosineSimilarity binary64 [1, 1] [1, 1] > 0
       then cosineSimilarity binary64 [1, 1] [1, 1] else 0) \<noteq> 1
   \<and> similarityMatrix binary64 [[1, 1]] ! 0 ! 0 \<noteq> 1
   \<and> cosineSimilarity binary64 [p2 (- 600)] [p2 (- 600)] = 0"
  by (simp add: similarityMatrix_def Let_def cosineSimilarity_binary64_11
      cosineSimilarity_binary64_underflow)

text \<open>
  C9, amended.  In exact arithmetic the cosine similarity of a vector with a non-zero
  component with itself is 1, clamping leaves it at 1, and every diagonal entry of the
  similarity matrix that belongs to such a vector is 1.  In binary64, when the squared norm
  that the loop accumulates lies between \<open>2\<^sup>-\<^sup>1\<^sup>0\<^sup>2\<^sup>1\<close> and \<open>2\<^sup>1\<^sup>0\<^sup>2\<^sup>3\<close>, so that no
  operation underflows or overflows, the self-similarity and the diagonal entry differ from
  1 by at most \<open>2\<^sup>-\<^sup>5\<^sup>0\<close>.
\<close>

theorem self_similarity:
  assumes "\<exists>x\<in>set v. x \<noteq> 0"
  shows "cosineSimilarity (\<lambda>x. x) v v = 1
    \<and> (if cosineSimilarity (\<lambda>x. x) v v > 0 then cosineSimilarity (\<lambda>x. x) v v else 0) = 1
    \<and> (\<forall>i<length e. e ! i = v \<longrightarrow> similarityMatrix (\<lambda>x. x) e ! i ! i = 1)
    \<and> (p2 (- 1021) \<le> normSquared binary64 v \<and> normSquared binary64 v \<le> p2 1023 \<longrightarrow>
          \<bar>cosineSimilarity binary64 v v - 1\<bar> \<le> 1 / 2 ^ 50
        \<and> (\<forall>i<length e. e ! i = v \<longrightarrow> \<bar>similarityMatrix binary64 e ! i ! i - 1\<bar> \<le> 1 / 2 ^ 50))"
proof -
  have exact: "cosineSimilarity (\<lambda>x. x) v v = 1" by (rule cosineSimilarity_self_exact [OF assms])
  have near: "\<bar>cosineSimilarity binary64 v v - 1\<bar> \<le> 1 / 2 ^ 50
      \<and> (\<forall>i<length e. e ! i = v \<longrightarrow> \<bar>similarityMatrix binary64 e ! i ! i - 1\<bar> \<le> 1 / 2 ^ 50)"
    if lo: "p2 (- 1021) \<le> normSquared binary64 v"
  proof -
    have c: "\<bar>cosineSimilarity binary64 v v - 1\<bar> \<le> 1 / 2 ^ 50"
      by (rule cosine_self_binary64_range [OF lo])
    moreover have "(1 / 2 ^ 50 :: real) \<le> 1" by simp
    ultimately have "0 \<le> cosineSimilarity binary64 v v" by linarith
    then have "max 0 (cosineSimilarity binary64 v v) = cosineSimilarity binary64 v v" by simp
    with c show ?thesis by (simp add: similarityMatrix_nth)
  qed
  from exact near show ?thesis by (simp add: similarityMatrix_nth)
qed

theorem self_similarity_witness:
  "(\<exists>x\<in>set [3, 4 :: real]. x \<noteq> 0) \<and> cosineSimilarity (\<lambda>x. x) [3, 4] [3, 4] = 1
    \<and> (1 :: nat) < length [[0, 0], [3, 4 :: real]] \<and> [[0, 0], [3, 4 :: real]] ! 1 = [3, 4]
    \<and> similarityMatrix (\<lambda>x. x) [[0, 0], [3, 4]] ! 1 ! 1 = 1
    \<and> (\<exists>x\<in>set [1, 1 :: real]. x \<noteq> 0)
    \<and> normSquared binary64 [1, 1] = 2 \<and> p2 (- 1021) \<le> 2 \<and> 2 \<le> p2 1023
    \<and> (0 :: nat) < length [[1, 1 :: real]] \<and> [[1, 1 :: real]] ! 0 = [1, 1]
    \<and> \<bar>cosineSimilarity binary64 [1, 1] [1, 1] - 1\<bar> \<le> 1 / 2 ^ 50
    \<and> \<bar>similarityMatrix binary64 [[1, 1]] ! 0 ! 0 - 1\<bar> \<le> 1 / 2 ^ 50"
proof -
  have nz: "\<exists>x\<in>set [3, 4 :: real]. x \<noteq> 0" by simp
  have i: "(1 :: nat) < length [[0, 0], [3, 4 :: real]]"
    and v: "[[0, 0], [3, 4 :: real]] ! 1 = [3, 4]" by simp_all
  from self_similarity [OF nz, of "[[0, 0], [3, 4]]"] i v
  have ex: "cosineSimilarity (\<lambda>x. x) [3, 4] [3, 4] = 1"
    "similarityMatrix (\<lambda>x. x) [[0, 0], [3, 4]] ! 1 ! 1 = 1"
    by blast+
  have nz1: "\<exists>x\<in>set [1, 1 :: real]. x \<noteq> 0" by simp
  have lo: "p2 (- 1021) \<le> (2 :: real)" and hi: "(2 :: real) \<le> p2 1023"
    by (simp_all add: p2_def)
  have i0: "(0 :: nat) < length [[1, 1 :: real]]" and v0: "[[1, 1 :: real]] ! 0 = [1, 1]"
    by simp_all
  from self_similarity [OF nz1, of "[[1, 1]]"] lo hi i0 v0
  have fl: "\<bar>cosineSimilarity binary64 [1, 1] [1, 1] - 1\<bar> \<le> 1 / 2 ^ 50"
    "\<bar>similarityMatrix binary64 [[1, 1]] ! 0 ! 0 - 1\<bar> \<le> 1 / 2 ^ 50"
    unfolding normSquared_binary64_11 by blast+
  show ?thesis
    by (intro conjI; fact nz i v ex nz1 normSquared_binary64_11 lo hi i0 v0 fl)
qed

section \<open>Values in the unit interval\<close>

text \<open>
  C10, as stated: every entry of the clamped similarity matrix, every coverage entry and
  every value of the trajectory lies in \<open>[0, 1]\<close>.  Only the lower bound is enforced by the
  code; the upper bound is a property of exact arithmetic.  In binary64 the similarity of
  \<open>[1, 1, 1]\<close> with itself is \<open>1 + 2\<^sup>-\<^sup>5\<^sup>2\<close>: this is the entry of the similarity matrix,
  the coverage after the first acceptance, and the value of the returned trajectory.
\<close>

theorem unit_interval_binary64_counterexample:
  "\<not> similarityMatrix binary64 [[1, 1, 1]] ! 0 ! 0 \<le> 1
   \<and> \<not> unit_range (coverage_after (similarityMatrix binary64 [[1, 1, 1]]) 1
          (res_selected (lazyGreedySelectionWithSaturation binary64 [[1, 1, 1]]
             (default_threshold binary64))))
   \<and> \<not> unit_range (res_values (lazyGreedySelectionWithSaturation binary64 [[1, 1, 1]]
          (default_threshold binary64)))"
proof -
  let ?r = "lazyGreedySelectionWithSaturation binary64 [[1, 1, 1]] (default_threshold binary64)"
  have sim: "similarityMatrix binary64 [[1, 1, 1]] = [[4503599627370497 / 4503599627370496]]"
    by (simp add: similarityMatrix_def Let_def cosineSimilarity_binary64_111)
  have sel: "res_selected ?r = [0]"
    and vals: "res_values ?r = [4503599627370497 / 4503599627370496]"
    by (simp_all add: saturation_binary64_111)
  have a: "\<not> similarityMatrix binary64 [[1, 1, 1]] ! 0 ! 0 \<le> 1"
    unfolding sim by simp
  have b: "\<not> unit_range (coverage_after (similarityMatrix binary64 [[1, 1, 1]]) 1
      (res_selected ?r))"
    unfolding sel sim coverage_after_above_one unit_range_single by simp
  have c: "\<not> unit_range (res_values ?r)"
    unfolding vals unit_range_single by simp
  from a b c show ?thesis by (intro conjI)
qed

text \<open>
  C10, amended.  For every rounding of the arithmetic, every entry of the clamped similarity
  matrix is at least 0, the inner loop of the saturation variant keeps the entries of a
  coverage vector at least 0, so the coverage after any number of accepted items of a run
  has no negative entry, and every value of the returned objective trajectory is at least
  0.  In exact arithmetic, moreover, every entry of the matrix is at most 1, the inner loop
  keeps a coverage vector with entries between 0 and 1 in that range, and the coverage
  entries of a run and the values of the trajectory lie between 0 and 1.
\<close>

theorem unit_interval_bounds:
  fixes rnd :: "real \<Rightarrow> real" and e :: "real list list" and thr :: real
  defines "n \<equiv> length e"
    and "sim \<equiv> similarityMatrix rnd e"
    and "r \<equiv> lazyGreedySelectionWithSaturation rnd e thr"
    and "simX \<equiv> similarityMatrix (\<lambda>x. x) e"
    and "rX \<equiv> lazyGreedySelectionWithSaturation (\<lambda>x. x) e thr"
  assumes rnd: "rounding rnd"
  shows "(\<forall>i<n. \<forall>j<n. 0 \<le> sim ! i ! j)
    \<and> (nonneg_list (currentCoverage s)
         \<longrightarrow> nonneg_list (currentCoverage (satWhileLoop rnd sim n thr it s)))
    \<and> (\<forall>t\<le>length (res_selected r). nonneg_list (coverage_after sim n (take t (res_selected r))))
    \<and> nonneg_list (res_values r)
    \<and> (\<forall>i<n. \<forall>j<n. 0 \<le> simX ! i ! j \<and> simX ! i ! j \<le> 1)
    \<and> (unit_range (currentCoverage s) \<and> length (currentCoverage s) = n \<and> remaining s \<subseteq> {0..<n}
         \<longrightarrow> unit_range (currentCoverage (satWhileLoop (\<lambda>x. x) simX n thr it s)))
    \<and> (\<forall>t\<le>length (res_selected rX).
          unit_range (coverage_after simX n (take t (res_selected rX))))
    \<and> unit_range (res_values rX)"
proof -
  have lo: "\<forall>i<n. \<forall>j<n. 0 \<le> sim ! i ! j"
    unfolding sim_def n_def by (simp add: similarityMatrix_nonneg)
  have loopN: "nonneg_list (currentCoverage (satWhileLoop rnd sim n thr it s))"
    if "nonneg_list (currentCoverage s)"
    using satWhileLoop_coverage_cases [of rnd sim n thr it s] that
    by (auto intro: updateCoverage_nonneg)
  have covN: "nonneg_list (coverage_after sim n (take t (res_selected r)))" for t
    by (rule coverage_after_nonneg)
  have ok: "sat_result_ok rnd e thr r" unfolding r_def by (rule saturation_result_ok [OF rnd])
  then have vs: "res_values r = trajectory rnd sim n (res_selected r)"
    unfolding sat_result_ok_def Let_def sim_def n_def by blast
  have valN: "nonneg_list (res_values r)"
    unfolding vs nonneg_list_def trajectory_def using objective_nonneg [OF rnd] by auto
  have m: "\<forall>i<n. \<forall>j<n. 0 \<le> simX ! i ! j \<and> simX ! i ! j \<le> 1"
    unfolding simX_def n_def by (simp add: similarityMatrix_nonneg similarityMatrix_le_1_exact)
  have loop: "unit_range (currentCoverage (satWhileLoop (\<lambda>x. x) simX n thr it s))"
    if u: "unit_range (currentCoverage s)" and l: "length (currentCoverage s) = n"
      and rem: "remaining s \<subseteq> {0..<n}"
  proof -
    from satWhileLoop_coverage_cases [of "\<lambda>x. x" simX n thr it s]
    consider "currentCoverage (satWhileLoop (\<lambda>x. x) simX n thr it s) = currentCoverage s"
      | b where "b \<in> remaining s"
        "currentCoverage (satWhileLoop (\<lambda>x. x) simX n thr it s)
           = updateCoverage n (simX ! b) (currentCoverage s)"
      by blast
    then show ?thesis
    proof cases
      case 1
      with u show ?thesis by simp
    next
      case 2
      with rem have "b < n" by auto
      with m l have "\<forall>j<length (currentCoverage s). 0 \<le> simX ! b ! j \<and> simX ! b ! j \<le> 1"
        by simp
      with u show ?thesis unfolding 2(2) by (rule updateCoverage_unit_range)
    qed
  qed
  have okX: "sat_result_ok (\<lambda>x. x) e thr rX"
    unfolding rX_def by (rule saturation_result_ok [OF rounding_id])
  then have sub: "set (res_selected rX) \<subseteq> {0..<n}"
    and vsX: "res_values rX = trajectory (\<lambda>x. x) simX n (res_selected rX)"
    unfolding sat_result_ok_def Let_def simX_def n_def by blast+
  have cov: "unit_range (coverage_after simX n (take t (res_selected rX)))" for t
  proof (rule coverage_after_unit_range [OF m])
    show "set (take t (res_selected rX)) \<subseteq> {0..<n}"
      using sub set_take_subset [of t "res_selected rX"] by blast
  qed
  have val: "unit_range (res_values rX)"
    unfolding vsX unit_range_def trajectory_def
    using objective_unit_exact [OF cov] by auto
  from lo loopN covN valN m loop cov val show ?thesis by blast
qed

theorem unit_interval_bounds_witness:
  "rounding binary64
    \<and> (0 :: nat) < length [[1, 0], [0, 1 :: real]] \<and> (1 :: nat) < length [[1, 0], [0, 1 :: real]]
    \<and> 0 \<le> similarityMatrix binary64 [[1, 0], [0, 1]] ! 0 ! 1
    \<and> nonneg_list [0, 0]
    \<and> currentCoverage (satWhileLoop binary64 (similarityMatrix binary64 [[1, 0], [0, 1]])
          (length [[1, 0], [0, 1 :: real]]) (1 / 4) 0
          \<lparr>selected = [], remaining = {0..<2}, currentCoverage = [0, 0],
           pq = [(- 1, 0, 0), (- 1, 0, 1)], valuesAcc = [], earlyStopK = None\<rparr>) = [1, 0]
    \<and> nonneg_list [1, 0]
    \<and> res_selected (lazyGreedySelectionWithSaturation binary64 [[1, 0], [0, 1]] (1 / 4))
        = [0, 1]
    \<and> (1 :: nat) \<le> length [0, 1 :: nat]
    \<and> nonneg_list (coverage_after (similarityMatrix binary64 [[1, 0], [0, 1]])
          (length [[1, 0], [0, 1 :: real]]) (take 1 [0, 1]))
    \<and> res_values (lazyGreedySelectionWithSaturation binary64 [[1, 0], [0, 1]] (1 / 4))
        = [1 / 2, 1]
    \<and> nonneg_list [1 / 2, 1]
    \<and> similarityMatrix (\<lambda>x. x) [[1, 0], [0, 1]] ! 0 ! 1 \<le> 1
    \<and> unit_range [0, 0] \<and> length [0, 0 :: real] = length [[1, 0], [0, 1 :: real]]
    \<and> {0..<2} \<subseteq> {0..<length [[1, 0], [0, 1 :: real]]}
    \<and> currentCoverage (satWhileLoop (\<lambda>x. x) (similarityMatrix (\<lambda>x. x) [[1, 0], [0, 1]])
          (length [[1, 0], [0, 1 :: real]]) (1 / 4) 0
          \<lparr>selected = [], remaining = {0..<2}, currentCoverage = [0, 0],
           pq = [(- 1, 0, 0), (- 1, 0, 1)], valuesAcc = [], earlyStopK = None\<rparr>) = [1, 0]
    \<and> unit_range [1, 0]
    \<and> res_selected (lazyGreedySelectionWithSaturation (\<lambda>x. x) [[1, 0], [0, 1]] (1 / 4))
        = [0, 1]
    \<and> unit_range (coverage_after (similarityMatrix (\<lambda>x. x) [[1, 0], [0, 1]])
          (length [[1, 0], [0, 1 :: real]]) (take 1 [0, 1]))
    \<and> res_values (lazyGreedySelectionWithSaturation (\<lambda>x. x) [[1, 0], [0, 1]] (1 / 4))
        = [1 / 2, 1]
    \<and> unit_range [1 / 2, 1]"
proof -
  let ?E = "[[1, 0], [0, 1 :: real]]"
  let ?s = "\<lparr>selected = [], remaining = {0..<2}, currentCoverage = [0, 0 :: real],
      pq = [(- 1, 0, 0), (- 1, 0, 1)], valuesAcc = [], earlyStopK = None\<rparr>"
  note r = rounding_binary64
  have thr: "(1 / 4 :: real) \<le> 1 / 2" by simp
  note two = twoOrthogonal_saturation [OF r thr]
  note twoX = twoOrthogonal_saturation [OF rounding_id thr]
  have i: "(0 :: nat) < length ?E" and j: "(1 :: nat) < length ?E" by simp_all
  have sim: "similarityMatrix rnd ?E = ?E" if "rounding rnd" for rnd
    by (simp add: similarityMatrix_def cosineSimilarity_def upt_rec Let_def
        rounding_simps [OF that])
  have w: "currentCoverage (satWhileLoop rnd ?E 2 (1 / 4) 0 ?s) = [1, 0]"
    if "rounding rnd" for rnd
    by (simp add: satWhileLoop.simps eval_simps rounding_simps [OF that])
  have n2: "length ?E = 2" by simp
  have wb: "currentCoverage (satWhileLoop binary64 (similarityMatrix binary64 ?E)
      (length ?E) (1 / 4) 0 ?s) = [1, 0]"
    unfolding sim [OF r] n2 by (rule w [OF r])
  have wx: "currentCoverage (satWhileLoop (\<lambda>x. x) (similarityMatrix (\<lambda>x. x) ?E)
      (length ?E) (1 / 4) 0 ?s) = [1, 0]"
    unfolding sim [OF rounding_id] n2 by (rule w [OF rounding_id])
  have vb: "res_values (lazyGreedySelectionWithSaturation binary64 ?E (1 / 4)) = [1 / 2, 1]"
    and vx: "res_values (lazyGreedySelectionWithSaturation (\<lambda>x. x) ?E (1 / 4)) = [1 / 2, 1]"
    by (simp_all add: two twoX)
  have n0: "nonneg_list (currentCoverage ?s)" and u0: "unit_range (currentCoverage ?s)"
    and l0: "length (currentCoverage ?s) = length ?E" and r0: "remaining ?s \<subseteq> {0..<length ?E}"
    by (simp_all add: nonneg_list_def unit_range_def)
  note inst = unit_interval_bounds [where rnd = binary64 and e = ?E and thr = "1 / 4"
      and s = ?s and it = 0, OF r]
  have sb: "res_selected (lazyGreedySelectionWithSaturation binary64 ?E (1 / 4)) = [0, 1]"
    and sx: "res_selected (lazyGreedySelectionWithSaturation (\<lambda>x. x) ?E (1 / 4)) = [0, 1]"
    by (simp_all add: two twoX)
  have t1: "(1 :: nat) \<le> length [0, 1 :: nat]" by simp
  from inst have cb: "\<forall>t\<le>length (res_selected (lazyGreedySelectionWithSaturation binary64 ?E (1 / 4))).
        nonneg_list (coverage_after (similarityMatrix binary64 ?E) (length ?E)
          (take t (res_selected (lazyGreedySelectionWithSaturation binary64 ?E (1 / 4)))))"
    and cx: "\<forall>t\<le>length (res_selected (lazyGreedySelectionWithSaturation (\<lambda>x. x) ?E (1 / 4))).
        unit_range (coverage_after (similarityMatrix (\<lambda>x. x) ?E) (length ?E)
          (take t (res_selected (lazyGreedySelectionWithSaturation (\<lambda>x. x) ?E (1 / 4)))))"
    by blast+
  from cb t1 have cb': "nonneg_list (coverage_after (similarityMatrix binary64 ?E) (length ?E)
      (take 1 [0, 1]))"
    unfolding sb by blast
  from cx t1 have cx': "unit_range (coverage_after (similarityMatrix (\<lambda>x. x) ?E) (length ?E)
      (take 1 [0, 1]))"
    unfolding sx by blast
  from inst have a: "\<forall>i<length ?E. \<forall>j<length ?E. 0 \<le> similarityMatrix binary64 ?E ! i ! j"
    and b: "nonneg_list (currentCoverage ?s) \<longrightarrow> nonneg_list (currentCoverage
        (satWhileLoop binary64 (similarityMatrix binary64 ?E) (length ?E) (1 / 4) 0 ?s))"
    and c: "nonneg_list (res_values (lazyGreedySelectionWithSaturation binary64 ?E (1 / 4)))"
    and d: "\<forall>i<length ?E. \<forall>j<length ?E. 0 \<le> similarityMatrix (\<lambda>x. x) ?E ! i ! j
        \<and> similarityMatrix (\<lambda>x. x) ?E ! i ! j \<le> 1"
    and f: "unit_range (currentCoverage ?s) \<and> length (currentCoverage ?s) = length ?E
        \<and> remaining ?s \<subseteq> {0..<length ?E}
        \<longrightarrow> unit_range (currentCoverage
          (satWhileLoop (\<lambda>x. x) (similarityMatrix (\<lambda>x. x) ?E) (length ?E) (1 / 4) 0 ?s))"
    and g: "unit_range (res_values (lazyGreedySelectionWithSaturation (\<lambda>x. x) ?E (1 / 4)))"
    by blast+
  from a i j have a': "0 \<le> similarityMatrix binary64 ?E ! 0 ! 1" by blast
  from b n0 have b': "nonneg_list [1, 0]" unfolding wb by blast
  from c have c': "nonneg_list [1 / 2, 1]" unfolding vb .
  from d i j have d': "similarityMatrix (\<lambda>x. x) ?E ! 0 ! 1 \<le> 1" by blast
  from f u0 l0 r0 have f': "unit_range [1, 0]" unfolding wx by blast
  from g have g': "unit_range [1 / 2, 1]" unfolding vx .
  have n0': "nonneg_list [0, 0]" and u0': "unit_range [0, 0]"
    and l0': "length [0, 0 :: real] = length ?E" and r0': "{0..<2} \<subseteq> {0..<length ?E}"
    using n0 u0 l0 r0 by simp_all
  show ?thesis
    by (intro conjI; fact r i j a' n0' wb b' sb t1 cb' vb c' d' u0' l0' r0' wx f' sx cx' vx g')
qed

end
